theory Spec2Isabelle
  imports Main "HOL-Library.Word" "HOL-Library.List_Lexorder"
begin

unbundle bit_operations_syntax

section \<open>Bytes, integers and failures\<close>

text \<open>
  The keeper of \<open>x/btcstaking\<close> works on byte slices and on \<open>uint64\<close> values. A byte is an
  8-bit word, a \<open>uint64\<close> a 64-bit word (addition wraps, as in Go), a byte slice a list of
  bytes. Byte slices are compared as \<open>bytes.Compare\<close> does: lexicographically, which is the
  order of \<open>HOL-Library.List_Lexorder\<close> on lists of words.
\<close>

type_synonym byte = "8 word"
type_synonym bytes = "byte list"
type_synonym uint64 = "64 word"
type_synonym uint32 = "32 word"

text \<open>
  A Go \<open>error\<close> result and a \<open>panic\<close> are values: \<open>Inl e\<close> of the sum type \<open>error + 'a\<close>.
  \<open>ErrBTCStakingNotActivated\<close> is the error of \<open>GetBTCStakingActivatedHeight\<close>,
  \<open>ErrUnmarshal\<close> the one of decoding a public key, \<open>Panic\<close> stands for every \<open>panic\<close>.
\<close>

datatype error = ErrBTCStakingNotActivated | ErrUnmarshal | Panic

text \<open>
  \<open>sdk.Uint64ToBigEndian\<close>: \<open>binary.BigEndian.PutUint64\<close> into a fresh slice of 8 bytes,
  \<open>b[0] = byte(v >> 56)\<close>, ..., \<open>b[7] = byte(v)\<close>.
\<close>

definition Uint64ToBigEndian :: "uint64 \<Rightarrow> bytes" where
  "Uint64ToBigEndian i =
     [ucast (drop_bit 56 i), ucast (drop_bit 48 i), ucast (drop_bit 40 i), ucast (drop_bit 32 i),
      ucast (drop_bit 24 i), ucast (drop_bit 16 i), ucast (drop_bit 8 i), ucast i]"

text \<open>
  \<open>binary.BigEndian.Uint64\<close> reads the first 8 bytes of its argument, whatever follows them:
  \<open>uint64(b[7]) | uint64(b[6])<<8 | ... | uint64(b[0])<<56\<close>. Its bounds check \<open>_ = b[7]\<close>
  is the \<open>Panic\<close> branch of \<open>BigEndianToUint64\<close>.
\<close>

definition Uint64 :: "bytes \<Rightarrow> uint64" where
  "Uint64 b =
     ucast (b ! 7) OR push_bit 8 (ucast (b ! 6)) OR push_bit 16 (ucast (b ! 5)) OR
     push_bit 24 (ucast (b ! 4)) OR push_bit 32 (ucast (b ! 3)) OR push_bit 40 (ucast (b ! 2)) OR
     push_bit 48 (ucast (b ! 1)) OR push_bit 56 (ucast (b ! 0))"

text \<open>
  \<open>sdk.BigEndianToUint64\<close>: 0 on an empty slice, otherwise \<open>binary.BigEndian.Uint64\<close>, which
  panics (index out of range) on a slice of 1 to 7 bytes.
\<close>

definition BigEndianToUint64 :: "bytes \<Rightarrow> error + uint64" where
  "BigEndianToUint64 bz =
     (if length bz = 0 then Inr 0
      else if length bz < 8 then Inl Panic
      else Inr (Uint64 bz))"

text \<open>
  \<open>hex.EncodeToString\<close>, behind \<open>BIP340PubKey.MarshalHex\<close>: two lower-case digits a byte,
  \<open>hextable[v >> 4]\<close> and \<open>hextable[v & 0x0f]\<close>.
\<close>

definition hextable :: string where
  "hextable = ''0123456789abcdef''"

definition hexByte :: "byte \<Rightarrow> string" where
  "hexByte v = [hextable ! unat (drop_bit 4 v), hextable ! unat (v AND 0x0f)]"

definition EncodeToString :: "bytes \<Rightarrow> string" where
  "EncodeToString src = concat (map hexByte src)"

section \<open>The key-value store\<close>

text \<open>
  The module's \<open>KVStore\<close> is an ordered map from byte slices to byte slices. It is modelled
  as the list of its entries in ascending key order, one entry a key (\<open>store_ok\<close>); the
  iterator \<open>Iterator(nil, nil)\<close> walks that list from its head: \<open>iter.Valid()\<close> says the rest
  is not empty, \<open>iter.Key()\<close> and \<open>iter.Value()\<close> read its head, \<open>iter.Next()\<close> drops it.
\<close>

type_synonym kvstore = "(bytes \<times> bytes) list"

definition store_ok :: "kvstore \<Rightarrow> bool" where
  "store_ok kv = sorted_wrt (<) (map fst kv)"

text \<open>\<open>Get\<close> returns \<open>nil\<close> (\<open>None\<close>) for a key with no entry.\<close>

definition kv_Get :: "kvstore \<Rightarrow> bytes \<Rightarrow> bytes option" where
  "kv_Get kv k = map_of kv k"

text \<open>\<open>Set\<close> writes the entry at its place in the key order, over an entry of the same key.\<close>

fun kv_Set :: "kvstore \<Rightarrow> bytes \<Rightarrow> bytes \<Rightarrow> kvstore" where
  "kv_Set [] k v = [(k, v)]"
| "kv_Set ((k', v') # kv) k v =
     (if k < k' then (k, v) # (k', v') # kv
      else if k = k' then (k, v) # kv
      else (k', v') # kv_Set kv k v)"

text \<open>
  \<open>prefix.NewStore(parent, pre)\<close> is a view of the parent: its key \<open>k\<close> is the parent's key
  \<open>pre || k\<close>, and its iterator visits the parent's entries whose key starts with \<open>pre\<close>, in
  the parent's order, with \<open>pre\<close> cut off. A prefix store of a prefix store is the prefix
  store of the two prefixes concatenated, so a view is given by its whole prefix and the
  underlying store. \<open>Set\<close> on a prefix store first checks the key (\<open>types.AssertValidKey\<close>)
  and panics on an empty one; the length limits of the store are far above the keys written
  here and are left out.
\<close>

definition prefix_Get :: "bytes \<Rightarrow> kvstore \<Rightarrow> bytes \<Rightarrow> bytes option" where
  "prefix_Get pre kv k = kv_Get kv (pre @ k)"

definition prefix_Set :: "bytes \<Rightarrow> kvstore \<Rightarrow> bytes \<Rightarrow> bytes \<Rightarrow> error + kvstore" where
  "prefix_Set pre kv k v =
     (if length k = 0 then Inl Panic else Inr (kv_Set kv (pre @ k) v))"

definition prefix_Iterator :: "bytes \<Rightarrow> kvstore \<Rightarrow> (bytes \<times> bytes) list" where
  "prefix_Iterator pre kv =
     map (\<lambda>(k, v). (drop (length pre) k, v)) (filter (\<lambda>(k, v). take (length pre) k = pre) kv)"

section \<open>The keeper's state\<close>

text \<open>
  The validator and delegation registries, the chain parameters and the Bitcoin light client
  are collaborators of the voting power table; their code is not part of the source slice.
  Each is a component of the state, holding what its accessor returns:
  \<^item> \<open>VotingPowerKey\<close>: the store prefix \<open>types.VotingPowerKey\<close>;
  \<^item> \<open>BIP340PubKeyLen\<close>: the length \<open>bbn.NewBIP340PubKey\<close> demands of a public key;
  \<^item> \<open>BlockHeight\<close>: \<open>uint64(sdk.UnwrapSDKContext(ctx).BlockHeight())\<close>;
  \<^item> \<open>CovenantQuorum\<close>, \<open>MaxActiveBtcValidators\<close>: fields of \<open>k.GetParams(ctx)\<close>;
  \<^item> \<open>CheckpointFinalizationTimeout\<close>: the field of \<open>k.btccKeeper.GetParams(ctx)\<close>;
  \<^item> \<open>CurrentBTCHeight\<close>: the result of \<open>k.GetCurrentBTCHeight(ctx)\<close>, \<open>None\<close> when it
    returns an error;
  \<^item> \<open>btcValidatorStore\<close>: the entries \<open>k.btcValidatorStore(ctx).Iterator(nil, nil)\<close> visits,
    in key order, each with what \<open>k.GetBTCValidator\<close> returns for its key (\<open>None\<close> when it
    returns an error);
  \<^item> \<open>btcDelegatorStore\<close>: for a validator key the entries
    \<open>k.btcDelegatorStore(ctx, valBTCPK).Iterator(nil, nil)\<close> visits, each with what
    \<open>k.getBTCDelegatorDelegations\<close> returns for it.
  A validator carries its slashed flag (\<open>IsSlashed\<close>). A \<open>BTCDelegatorDelegations\<close> value is
  given by its method \<open>VotingPower(btcTipHeight, wValue, covenantQuorum)\<close>.
\<close>

record BTCValidator =
  IsSlashed :: bool

type_synonym BTCDelegatorDelegations = "uint64 \<Rightarrow> uint64 \<Rightarrow> uint32 \<Rightarrow> uint64"

record BTCValidatorWithMeta =
  BtcPk :: bytes
  VotingPower :: uint64

record keeper_state =
  kvstore :: kvstore
  VotingPowerKey :: bytes
  BIP340PubKeyLen :: nat
  BlockHeight :: uint64
  CovenantQuorum :: uint32
  MaxActiveBtcValidators :: uint32
  CheckpointFinalizationTimeout :: uint64
  CurrentBTCHeight :: "uint64 option"
  btcValidatorStore :: "(bytes \<times> BTCValidator option) list"
  btcDelegatorStore :: "bytes \<Rightarrow> (bytes \<times> BTCDelegatorDelegations option) list"

text \<open>
  \<open>bbn.NewBIP340PubKey\<close> checks the length of the bytes and keeps them as the key, or returns
  an error; \<open>MustMarshal\<close> gives the bytes back, \<open>MarshalHex\<close> their hexadecimal form.
\<close>

definition NewBIP340PubKey :: "keeper_state \<Rightarrow> bytes \<Rightarrow> error + bytes" where
  "NewBIP340PubKey s data =
     (if length data \<noteq> BIP340PubKeyLen s then Inl ErrUnmarshal else Inr data)"

definition MarshalHex :: "bytes \<Rightarrow> string" where
  "MarshalHex pk = EncodeToString pk"

text \<open>\<open>k.HasBTCValidator\<close>: the validator store has the key.\<close>

definition HasBTCValidator :: "keeper_state \<Rightarrow> bytes \<Rightarrow> bool" where
  "HasBTCValidator s valBTCPK = (valBTCPK \<in> set (map fst (btcValidatorStore s)))"

section \<open>The voting power store\<close>

text \<open>
  \<open>votingPowerStore\<close>: the prefix store of \<open>VotingPowerKey || height\<close>, the height as 8
  big-endian bytes.
\<close>

definition votingPowerStore :: "keeper_state \<Rightarrow> uint64 \<Rightarrow> bytes" where
  "votingPowerStore s height = VotingPowerKey s @ Uint64ToBigEndian height"

definition SetVotingPower :: "keeper_state \<Rightarrow> bytes \<Rightarrow> uint64 \<Rightarrow> uint64 \<Rightarrow> error + keeper_state" where
  "SetVotingPower s valBTCPK height pwr =
     (case prefix_Set (votingPowerStore s height) (kvstore s) valBTCPK (Uint64ToBigEndian pwr) of
        Inl e \<Rightarrow> Inl e
      | Inr kv \<Rightarrow> Inr (s\<lparr>kvstore := kv\<rparr>))"

definition GetVotingPower :: "keeper_state \<Rightarrow> bytes \<Rightarrow> uint64 \<Rightarrow> error + uint64" where
  "GetVotingPower s valBTCPK height =
     (if \<not> HasBTCValidator s valBTCPK then Inr 0
      else case prefix_Get (votingPowerStore s height) (kvstore s) valBTCPK of
        None \<Rightarrow> Inr 0
      | Some powerBytes \<Rightarrow>
          if length powerBytes = 0 then Inr 0 else BigEndianToUint64 powerBytes)"

definition HasVotingPowerTable :: "keeper_state \<Rightarrow> uint64 \<Rightarrow> bool" where
  "HasVotingPowerTable s height =
     (prefix_Iterator (votingPowerStore s height) (kvstore s) \<noteq> [])"

text \<open>The loop of \<open>GetVotingPowerTable\<close> over the iterator, filling the map \<open>valSet\<close>.\<close>

fun valSetLoop ::
  "keeper_state \<Rightarrow> (bytes \<times> bytes) list \<Rightarrow> (string \<rightharpoonup> uint64) \<Rightarrow> error + (string \<rightharpoonup> uint64)"
where
  "valSetLoop s [] valSet = Inr valSet"
| "valSetLoop s ((k, v) # iter) valSet =
     (case NewBIP340PubKey s k of
        Inl e \<Rightarrow> Inl Panic
      | Inr valBTCPK \<Rightarrow>
          (case BigEndianToUint64 v of
             Inl e \<Rightarrow> Inl e
           | Inr pwr \<Rightarrow> valSetLoop s iter (valSet(MarshalHex valBTCPK \<mapsto> pwr))))"

text \<open>\<open>GetVotingPowerTable\<close>: \<open>nil\<close> is \<open>None\<close>, a map \<open>Some valSet\<close>.\<close>

definition GetVotingPowerTable :: "keeper_state \<Rightarrow> uint64 \<Rightarrow> error + (string \<rightharpoonup> uint64) option" where
  "GetVotingPowerTable s height =
     (let iter = prefix_Iterator (votingPowerStore s height) (kvstore s) in
      if iter = [] then Inr None
      else case valSetLoop s iter Map.empty of
        Inl e \<Rightarrow> Inl e
      | Inr valSet \<Rightarrow> Inr (Some valSet))"

definition GetBTCStakingActivatedHeight :: "keeper_state \<Rightarrow> error + uint64" where
  "GetBTCStakingActivatedHeight s =
     (case prefix_Iterator (VotingPowerKey s) (kvstore s) of
        [] \<Rightarrow> Inl ErrBTCStakingNotActivated
      | (k, v) # iter \<Rightarrow> BigEndianToUint64 k)"

definition IsBTCStakingActivated :: "keeper_state \<Rightarrow> bool" where
  "IsBTCStakingActivated s = (prefix_Iterator (VotingPowerKey s) (kvstore s) \<noteq> [])"

section \<open>The tally\<close>

text \<open>
  The inner loop of \<open>RecordVotingPowerTable\<close>: over the delegators of one validator,
  \<open>valPower += btcDels.VotingPower(btcTipHeight, wValue, covenantQuorum)\<close>, with a panic on
  a key or a value that does not decode.
\<close>

fun sumVotingPower ::
  "keeper_state \<Rightarrow> uint64 \<Rightarrow> (bytes \<times> BTCDelegatorDelegations option) list \<Rightarrow> uint64 \<Rightarrow> error + uint64"
where
  "sumVotingPower s btcTipHeight [] valPower = Inr valPower"
| "sumVotingPower s btcTipHeight ((k, d) # btcDelIter) valPower =
     (case NewBIP340PubKey s k of
        Inl e \<Rightarrow> Inl Panic
      | Inr delBTCPK \<Rightarrow>
          (case d of
             None \<Rightarrow> Inl Panic
           | Some btcDels \<Rightarrow>
               sumVotingPower s btcTipHeight btcDelIter
                 (valPower + btcDels btcTipHeight (CheckpointFinalizationTimeout s) (CovenantQuorum s))))"

text \<open>
  The outer loop: over the validator store, skipping slashed validators and appending the
  ones with a positive sum to \<open>activeBTCVals\<close>.
\<close>

fun collectActive ::
  "keeper_state \<Rightarrow> uint64 \<Rightarrow> (bytes \<times> BTCValidator option) list \<Rightarrow> BTCValidatorWithMeta list \<Rightarrow>
   error + BTCValidatorWithMeta list"
where
  "collectActive s btcTipHeight [] activeBTCVals = Inr activeBTCVals"
| "collectActive s btcTipHeight ((valBTCPKBytes, v) # btcValIter) activeBTCVals =
     (case NewBIP340PubKey s valBTCPKBytes of
        Inl e \<Rightarrow> Inl Panic
      | Inr valBTCPK \<Rightarrow>
          (case v of
             None \<Rightarrow> Inl Panic
           | Some btcVal \<Rightarrow>
               if IsSlashed btcVal then collectActive s btcTipHeight btcValIter activeBTCVals
               else
                 (case sumVotingPower s btcTipHeight (btcDelegatorStore s valBTCPK) 0 of
                    Inl e \<Rightarrow> Inl e
                  | Inr valPower \<Rightarrow>
                      if valPower > 0
                      then collectActive s btcTipHeight btcValIter
                             (activeBTCVals @ [\<lparr>BtcPk = valBTCPK, VotingPower = valPower\<rparr>])
                      else collectActive s btcTipHeight btcValIter activeBTCVals)))"

text \<open>
  Modelled from the spec: \<open>types.FilterTopNBTCValidators\<close> (the spec's TopNSelector) is code of
  the repository outside the source slice. The spec gives it as a deterministic ranking and
  truncation of the candidates to the cap N, ties between equal powers broken in ascending
  validator-key order: the candidates are ranked by descending power, equal powers by
  ascending key, and the first N are kept.
\<close>

definition ranksBefore :: "BTCValidatorWithMeta \<Rightarrow> BTCValidatorWithMeta \<Rightarrow> bool" where
  "ranksBefore a b =
     (VotingPower a > VotingPower b \<or> (VotingPower a = VotingPower b \<and> BtcPk a \<le> BtcPk b))"

text \<open>
  Modelled from the spec: the ranking, as an insertion into a list already ranked.
\<close>

fun insertRanked :: "BTCValidatorWithMeta \<Rightarrow> BTCValidatorWithMeta list \<Rightarrow> BTCValidatorWithMeta list" where
  "insertRanked a [] = [a]"
| "insertRanked a (b # bs) = (if ranksBefore a b then a # b # bs else b # insertRanked a bs)"

text \<open>
  Modelled from the spec: \<open>FilterTopNBTCValidators\<close> ranks the candidates and keeps the first
  \<open>n\<close>.
\<close>

definition FilterTopNBTCValidators :: "BTCValidatorWithMeta list \<Rightarrow> uint32 \<Rightarrow> BTCValidatorWithMeta list" where
  "FilterTopNBTCValidators validators n = take (unat n) (foldr insertRanked validators [])"

text \<open>The last loop of the tally: \<open>SetVotingPower\<close> for each active validator, in order.\<close>

fun setVotingPowers :: "keeper_state \<Rightarrow> uint64 \<Rightarrow> BTCValidatorWithMeta list \<Rightarrow> error + keeper_state" where
  "setVotingPowers s height [] = Inr s"
| "setVotingPowers s height (btcVal # rest) =
     (case SetVotingPower s (BtcPk btcVal) height (VotingPower btcVal) of
        Inl e \<Rightarrow> Inl e
      | Inr s' \<Rightarrow> setVotingPowers s' height rest)"

text \<open>
  \<open>RecordVotingPowerTable\<close> has no result: it returns (\<open>Inr\<close>, with the state it leaves) or
  panics (\<open>Inl Panic\<close>).
\<close>

definition RecordVotingPowerTable :: "keeper_state \<Rightarrow> error + keeper_state" where
  "RecordVotingPowerTable s =
     (case CurrentBTCHeight s of
        None \<Rightarrow> Inr s
      | Some btcTipHeight \<Rightarrow>
          (case collectActive s btcTipHeight (btcValidatorStore s) [] of
             Inl e \<Rightarrow> Inl e
           | Inr activeBTCVals \<Rightarrow>
               if length activeBTCVals = 0 then Inr s
               else setVotingPowers s (BlockHeight s)
                      (FilterTopNBTCValidators activeBTCVals (MaxActiveBtcValidators s))))"

section \<open>Auxiliary notions\<close>

text \<open>
  A validator key is slashed in the registry when the validator stored under it has its
  slashed flag set.
\<close>

definition slashedValidator :: "keeper_state \<Rightarrow> bytes \<Rightarrow> bool" where
  "slashedValidator s valBTCPK =
     (\<exists>v. (valBTCPK, Some v) \<in> set (btcValidatorStore s) \<and> IsSlashed v)"

text \<open>
  Every key of the voting power section of the store starts with a height segment of 8
  bytes. \<open>SetVotingPower\<close>, the only writer of the section, keeps it so.
\<close>

definition votingPowerKeys_ok :: "keeper_state \<Rightarrow> bool" where
  "votingPowerKeys_ok s =
     (\<forall>(k, v) \<in> set (prefix_Iterator (VotingPowerKey s) (kvstore s)). 8 \<le> length k)"

text \<open>The value of a byte string read as a big-endian numeral.\<close>

fun be_nat :: "bytes \<Rightarrow> nat" where
  "be_nat [] = 0"
| "be_nat (x # xs) = unat x * 256 ^ length xs + be_nat xs"

text \<open>
  The score of a validator at a tip height: the sum, in \<open>uint64\<close> arithmetic, of what the
  \<open>VotingPower\<close> method of each of its delegations returns (0 for one that does not decode).
\<close>

definition delegationScore ::
  "keeper_state \<Rightarrow> uint64 \<Rightarrow> bytes \<times> BTCDelegatorDelegations option \<Rightarrow> uint64" where
  "delegationScore s btcTipHeight e =
     (case snd e of
        None \<Rightarrow> 0
      | Some btcDels \<Rightarrow> btcDels btcTipHeight (CheckpointFinalizationTimeout s) (CovenantQuorum s))"

definition totalScore :: "keeper_state \<Rightarrow> uint64 \<Rightarrow> bytes \<Rightarrow> uint64" where
  "totalScore s btcTipHeight valBTCPK =
     sum_list (map (delegationScore s btcTipHeight) (btcDelegatorStore s valBTCPK))"

text \<open>
  The registries decode: every validator key and delegator key has the length of a public
  key, and every stored validator and delegation unmarshals. The tally panics otherwise.
\<close>

definition registry_ok :: "keeper_state \<Rightarrow> bool" where
  "registry_ok s =
     (\<forall>(k, v) \<in> set (btcValidatorStore s).
        length k = BIP340PubKeyLen s \<and> v \<noteq> None \<and>
        (\<forall>(dk, d) \<in> set (btcDelegatorStore s k). length dk = BIP340PubKeyLen s \<and> d \<noteq> None))"

text \<open>
  What the tally may write for a state: a positive power, for a key of the registry whose
  validator is not slashed.
\<close>

definition activeEntry :: "keeper_state \<Rightarrow> BTCValidatorWithMeta \<Rightarrow> bool" where
  "activeEntry s e =
     (0 < VotingPower e \<and> length (BtcPk e) = BIP340PubKeyLen s \<and>
      (\<exists>b. (BtcPk e, Some b) \<in> set (btcValidatorStore s) \<and> \<not> IsSlashed b))"

text \<open>
  The tables of a state are well formed: under every height, every entry holds a positive
  power, as 8 big-endian bytes, and there are at most \<open>MaxActiveBtcValidators\<close> entries.
  The entries under a height are the ones the iterator of its prefix store visits.
\<close>

definition tables_ok :: "keeper_state \<Rightarrow> bool" where
  "tables_ok s =
     (\<forall>H. (\<forall>(pk, v) \<in> set (prefix_Iterator (votingPowerStore s H) (kvstore s)).
              \<exists>p. v = Uint64ToBigEndian p \<and> 0 < p) \<and>
          length (prefix_Iterator (votingPowerStore s H) (kvstore s)) \<le>
            unat (MaxActiveBtcValidators s))"

text \<open>
  The table of a height decodes: every entry under the height has a key with the length of
  a public key and a value of 8 bytes, as \<open>SetVotingPower\<close> writes them in the tally.
  \<open>GetVotingPowerTable\<close> panics on a key of another length.
\<close>

definition table_decodes :: "keeper_state \<Rightarrow> uint64 \<Rightarrow> bool" where
  "table_decodes s height =
     (\<forall>(k, v) \<in> set (prefix_Iterator (votingPowerStore s height) (kvstore s)).
        length k = BIP340PubKeyLen s \<and> length v = 8)"

section \<open>Example states\<close>

text \<open>
  Keys of 32 bytes: four validators and two delegators. \<open>scenarioState\<close> is a state at block
  height 11. Its store holds the table of height 10: power 100 for \<open>pkA\<close> and 500 for \<open>pkD\<close>.
  Since then \<open>pkD\<close> has been slashed; the delegations now give \<open>pkA\<close> 60 + 40, \<open>pkB\<close> 80,
  \<open>pkC\<close> 80 and \<open>pkD\<close> 500, and at most 2 validators are active.
\<close>

definition pkA :: bytes where "pkA = 0x0a # replicate 31 0"
definition pkB :: bytes where "pkB = 0x0b # replicate 31 0"
definition pkC :: bytes where "pkC = 0x0c # replicate 31 0"
definition pkD :: bytes where "pkD = 0x0d # replicate 31 0"
definition delE :: bytes where "delE = 0x0e # replicate 31 0"
definition delF :: bytes where "delF = 0x0f # replicate 31 0"

definition scenarioDelegators :: "bytes \<Rightarrow> (bytes \<times> BTCDelegatorDelegations option) list" where
  "scenarioDelegators valBTCPK =
     (if valBTCPK = pkA then [(delE, Some (\<lambda>btcTipHeight wValue covenantQuorum. 60)),
                              (delF, Some (\<lambda>btcTipHeight wValue covenantQuorum. 40))]
      else if valBTCPK = pkB then [(delE, Some (\<lambda>btcTipHeight wValue covenantQuorum. 80))]
      else if valBTCPK = pkC then [(delF, Some (\<lambda>btcTipHeight wValue covenantQuorum. 80))]
      else if valBTCPK = pkD then [(delE, Some (\<lambda>btcTipHeight wValue covenantQuorum. 500))]
      else [])"

definition scenarioState :: keeper_state where
  "scenarioState =
     \<lparr>kvstore = [([0x05] @ Uint64ToBigEndian 10 @ pkA, Uint64ToBigEndian 100),
                 ([0x05] @ Uint64ToBigEndian 10 @ pkD, Uint64ToBigEndian 500)],
      VotingPowerKey = [0x05], BIP340PubKeyLen = 32, BlockHeight = 11, CovenantQuorum = 3,
      MaxActiveBtcValidators = 2, CheckpointFinalizationTimeout = 100,
      CurrentBTCHeight = Some 800000,
      btcValidatorStore =
        [(pkA, Some \<lparr>IsSlashed = False\<rparr>), (pkB, Some \<lparr>IsSlashed = False\<rparr>),
         (pkC, Some \<lparr>IsSlashed = False\<rparr>), (pkD, Some \<lparr>IsSlashed = True\<rparr>)],
      btcDelegatorStore = scenarioDelegators\<rparr>"

text \<open>The state the tally leaves when it runs on \<open>scenarioState\<close>.\<close>

definition talliedState :: keeper_state where
  "talliedState = scenarioState
     \<lparr>kvstore := [([0x05] @ Uint64ToBigEndian 10 @ pkA, Uint64ToBigEndian 100),
                  ([0x05] @ Uint64ToBigEndian 10 @ pkD, Uint64ToBigEndian 500),
                  ([0x05] @ Uint64ToBigEndian 11 @ pkA, Uint64ToBigEndian 100),
                  ([0x05] @ Uint64ToBigEndian 11 @ pkB, Uint64ToBigEndian 80)]\<rparr>"

text \<open>
  \<open>noTipState\<close>: the example state when the lookup of the Bitcoin tip fails. \<open>idleState\<close>: the
  example state when the delegations of \<open>pkA\<close> score 0, \<open>pkB\<close> and \<open>pkC\<close> have none, and only
  the slashed \<open>pkD\<close> has a positive score.
\<close>

definition noTipState :: keeper_state where
  "noTipState = scenarioState\<lparr>CurrentBTCHeight := None\<rparr>"

definition idleDelegators :: "bytes \<Rightarrow> (bytes \<times> BTCDelegatorDelegations option) list" where
  "idleDelegators valBTCPK =
     (if valBTCPK = pkA then [(delE, Some (\<lambda>btcTipHeight wValue covenantQuorum. 0)),
                              (delF, Some (\<lambda>btcTipHeight wValue covenantQuorum. 0))]
      else if valBTCPK = pkD then [(delE, Some (\<lambda>btcTipHeight wValue covenantQuorum. 500))]
      else [])"

definition idleState :: keeper_state where
  "idleState = scenarioState\<lparr>btcDelegatorStore := idleDelegators\<rparr>"

section \<open>Big-endian encoding\<close>

lemma length_Uint64ToBigEndian: "length (Uint64ToBigEndian i) = 8"
  by (simp add: Uint64ToBigEndian_def)

lemma bit_Uint64_BE:
  "n < 64 \<Longrightarrow> bit (Uint64 (Uint64ToBigEndian i)) n =
     (n < 8 \<and> bit i n \<or>
          8 \<le> n \<and> n - 8 < 64 \<and> n - 8 < 8 \<and> bit i (8 + (n - 8)) \<or>
         16 \<le> n \<and> n - 16 < 64 \<and> n - 16 < 8 \<and> bit i (16 + (n - 16)) \<or>
          24 \<le> n \<and> n - 24 < 64 \<and> n - 24 < 8 \<and> bit i (24 + (n - 24)) \<or>
          32 \<le> n \<and> n - 32 < 64 \<and> n - 32 < 8 \<and> bit i (32 + (n - 32)) \<or>
          40 \<le> n \<and> n - 40 < 64 \<and> n - 40 < 8 \<and> bit i (40 + (n - 40)) \<or>
          48 \<le> n \<and> n - 48 < 64 \<and> n - 48 < 8 \<and> bit i (48 + (n - 48)) \<or>
          56 \<le> n \<and> n - 56 < 64 \<and> n - 56 < 8 \<and> bit i (56 + (n - 56)))"
  unfolding Uint64_def Uint64ToBigEndian_def
  by (simp add: bit_simps)

lemma Uint64_Uint64ToBigEndian: "Uint64 (Uint64ToBigEndian i) = i"
proof (rule bit_word_eqI)
  fix n assume "n < LENGTH(64)"
  then have n: "n < 64" by simp
  consider "n < 8" | "8 \<le> n" "n < 16" | "16 \<le> n" "n < 24" | "24 \<le> n" "n < 32"
    | "32 \<le> n" "n < 40" | "40 \<le> n" "n < 48" | "48 \<le> n" "n < 56" | "56 \<le> n" "n < 64"
    using n by linarith
  then show "bit (Uint64 (Uint64ToBigEndian i)) n = bit i n"
    by cases (simp_all add: bit_Uint64_BE [OF n] less_diff_conv2)
qed

lemma byte_of_Uint64:
  "ucast (drop_bit 56 (Uint64 b)) = b ! 0"
  "ucast (drop_bit 48 (Uint64 b)) = b ! 1"
  "ucast (drop_bit 40 (Uint64 b)) = b ! 2"
  "ucast (drop_bit 32 (Uint64 b)) = b ! 3"
  "ucast (drop_bit 24 (Uint64 b)) = b ! 4"
  "ucast (drop_bit 16 (Uint64 b)) = b ! 5"
  "ucast (drop_bit 8 (Uint64 b)) = b ! 6"
  "ucast (Uint64 b) = b ! 7"
  unfolding Uint64_def
  by (rule bit_word_eqI, auto simp add: bit_simps dest: bit_imp_le_length)+

lemma Uint64ToBigEndian_Uint64:
  assumes "length b = 8"
  shows "Uint64ToBigEndian (Uint64 b) = b"
proof -
  obtain b0 b1 b2 b3 b4 b5 b6 b7 where b: "b = [b0, b1, b2, b3, b4, b5, b6, b7]"
    using assms by (auto simp: length_Suc_conv numeral_eq_Suc)
  show ?thesis
    unfolding Uint64ToBigEndian_def byte_of_Uint64 by (simp add: b)
qed

lemma Uint64_take: "8 \<le> length b \<Longrightarrow> Uint64 (take 8 b) = Uint64 b"
  by (simp add: Uint64_def)

lemma be_nat_bound: "be_nat xs < 256 ^ length xs"
proof (induction xs)
  case Nil
  show ?case by simp
next
  case (Cons x xs)
  have "unat x < 256" using unsigned_less [of x, where ?'a = nat] by simp
  then have "unat x * 256 ^ length xs + be_nat xs < (unat x + 1) * 256 ^ length xs"
    using Cons by simp
  also have "\<dots> \<le> 256 * 256 ^ length xs"
    using \<open>unat x < 256\<close> by (intro mult_right_mono) simp_all
  finally show ?case by simp
qed

lemma be_nat_mono:
  "length xs = length ys \<Longrightarrow> xs < ys \<Longrightarrow> be_nat xs < be_nat ys"
proof (induction xs ys rule: list_induct2)
  case Nil
  then show ?case by simp
next
  case (Cons x xs y ys)
  from Cons.prems consider "x < y" | "x = y" "xs < ys" by auto
  then show ?case
  proof cases
    case 1
    then have "unat x + 1 \<le> unat y" by (simp add: word_less_nat_alt)
    then have "(unat x + 1) * 256 ^ length ys \<le> unat y * 256 ^ length ys"
      by (intro mult_right_mono) simp_all
    moreover have "be_nat xs < 256 ^ length ys"
      using be_nat_bound [of xs] Cons.hyps by simp
    ultimately show ?thesis using Cons.hyps by simp
  next
    case 2
    then show ?thesis using Cons.IH Cons.hyps by simp
  qed
qed

lemma be_nat_Uint64ToBigEndian: "be_nat (Uint64ToBigEndian i) = unat i"
proof -
  define n where "n = unat i"
  have n: "n < 2 ^ 64" unfolding n_def using unsigned_less [of i, where ?'a = nat] by simp
  have byte: "unat (ucast (drop_bit k i) :: byte) = n div 2 ^ k mod 256" for k
    unfolding unsigned_ucast_eq unat_drop_bit_eq n_def
    by (simp add: drop_bit_eq_div take_bit_eq_mod)
  have byte0: "unat (ucast i :: byte) = n mod 256"
    by (simp add: unsigned_ucast_eq take_bit_eq_mod n_def)
  have step: "m div 2 ^ (k + 8) * 256 + m div 2 ^ k mod 256 = m div 2 ^ k" for m k :: nat
  proof -
    have "m div 2 ^ (k + 8) = m div 2 ^ k div 256"
      by (simp add: power_add div_mult2_eq)
    then show ?thesis by (simp add: div_mult_mod_eq)
  qed
  have top: "n div 2 ^ 56 mod 256 = n div 2 ^ 56"
  proof -
    have "n div 2 ^ 56 < 256" using n by (simp add: less_mult_imp_div_less)
    then show ?thesis by simp
  qed
  have "be_nat (Uint64ToBigEndian i) =
      ((((((n div 2 ^ 56 mod 256 * 256 + n div 2 ^ 48 mod 256) * 256 + n div 2 ^ 40 mod 256) * 256
        + n div 2 ^ 32 mod 256) * 256 + n div 2 ^ 24 mod 256) * 256 + n div 2 ^ 16 mod 256) * 256
        + n div 2 ^ 8 mod 256) * 256 + n mod 256"
    by (simp add: Uint64ToBigEndian_def byte byte0)
  also have "\<dots> = n"
    using step [of n 48] step [of n 40] step [of n 32] step [of n 24] step [of n 16]
      step [of n 8] step [of n 0] top
    by simp
  finally show ?thesis by (simp add: n_def)
qed

lemma Uint64ToBigEndian_less_iff:
  "Uint64ToBigEndian a < Uint64ToBigEndian b \<longleftrightarrow> a < b"
proof
  assume "Uint64ToBigEndian a < Uint64ToBigEndian b"
  then have "be_nat (Uint64ToBigEndian a) < be_nat (Uint64ToBigEndian b)"
    by (intro be_nat_mono) (simp_all add: length_Uint64ToBigEndian)
  then show "a < b"
    by (simp add: be_nat_Uint64ToBigEndian word_less_nat_alt)
next
  assume ab: "a < b"
  show "Uint64ToBigEndian a < Uint64ToBigEndian b"
  proof (rule ccontr)
    assume "\<not> Uint64ToBigEndian a < Uint64ToBigEndian b"
    then consider "Uint64ToBigEndian b < Uint64ToBigEndian a"
      | "Uint64ToBigEndian b = Uint64ToBigEndian a"
      by (meson linorder_neqE)
    then show False
    proof cases
      case 1
      then have "be_nat (Uint64ToBigEndian b) < be_nat (Uint64ToBigEndian a)"
        by (intro be_nat_mono) (simp_all add: length_Uint64ToBigEndian)
      then have "b < a" by (simp add: be_nat_Uint64ToBigEndian word_less_nat_alt)
      with ab show False by simp
    next
      case 2
      then have "Uint64 (Uint64ToBigEndian b) = Uint64 (Uint64ToBigEndian a)" by simp
      then have "b = a" by (simp add: Uint64_Uint64ToBigEndian)
      with ab show False by simp
    qed
  qed
qed

lemma Uint64ToBigEndian_inj: "Uint64ToBigEndian a = Uint64ToBigEndian b \<longleftrightarrow> a = b"
  by (metis Uint64_Uint64ToBigEndian)

lemma append_less_append:
  "length a = length b \<Longrightarrow> a @ x < b @ y \<longleftrightarrow> a < b \<or> (a = b \<and> x < y)"
  for a b x y :: "'a::linorder list"
  by (induction a b rule: list_induct2) auto

lemma append_same_less: "pre @ x < pre @ y \<longleftrightarrow> x < y"
  for pre x y :: "'a::linorder list"
  by (simp add: append_less_append)

section \<open>Facts about the store\<close>

lemma kv_Get_kv_Set: "kv_Get (kv_Set kv k v) k' = (if k' = k then Some v else kv_Get kv k')"
  by (induction kv) (auto simp: kv_Get_def)

lemma fst_set_kv_Set: "fst ` set (kv_Set kv k v) = insert k (fst ` set kv)"
  by (induction kv k v rule: kv_Set.induct) (simp_all add: insert_commute)

lemma store_ok_kv_Set: "store_ok kv \<Longrightarrow> store_ok (kv_Set kv k v)"
proof (induction kv)
  case Nil
  then show ?case by (simp add: store_ok_def)
next
  case (Cons e kv)
  obtain k' v' where e: "e = (k', v')" by (cases e)
  from Cons.prems have tl: "store_ok kv" and hd: "\<forall>x \<in> fst ` set kv. k' < x"
    by (auto simp: store_ok_def e)
  show ?case
  proof (cases "k < k'")
    case True
    then show ?thesis using Cons.prems hd by (auto simp: store_ok_def e)
  next
    case False
    show ?thesis
    proof (cases "k = k'")
      case True
      then show ?thesis using Cons.prems by (simp add: store_ok_def e)
    next
      case False
      with \<open>\<not> k < k'\<close> have "k' < k" by simp
      then show ?thesis
        using Cons.IH [OF tl] hd \<open>\<not> k < k'\<close> False fst_set_kv_Set [of kv k v]
        by (auto simp: store_ok_def e)
    qed
  qed
qed

lemma store_ok_distinct: "store_ok kv \<Longrightarrow> distinct (map fst kv)"
  by (simp add: store_ok_def strict_sorted_iff)

lemma kv_Get_Some_iff: "store_ok kv \<Longrightarrow> kv_Get kv k = Some v \<longleftrightarrow> (k, v) \<in> set kv"
  by (simp add: kv_Get_def store_ok_distinct)

lemma kv_Get_None_iff: "kv_Get kv k = None \<longleftrightarrow> k \<notin> fst ` set kv"
  by (simp add: kv_Get_def map_of_eq_None_iff)

lemma prefix_Iterator_mem:
  "(k, v) \<in> set (prefix_Iterator pre kv) \<longleftrightarrow> (pre @ k, v) \<in> set kv"
proof
  assume "(k, v) \<in> set (prefix_Iterator pre kv)"
  then obtain k0 where "(k0, v) \<in> set kv" "take (length pre) k0 = pre" "drop (length pre) k0 = k"
    by (auto simp: prefix_Iterator_def)
  then show "(pre @ k, v) \<in> set kv"
    using append_take_drop_id [of "length pre" k0] by simp
next
  assume "(pre @ k, v) \<in> set kv"
  then show "(k, v) \<in> set (prefix_Iterator pre kv)"
    by (force simp: prefix_Iterator_def)
qed

section \<open>Reading and writing one entry\<close>

lemma BigEndianToUint64_Uint64ToBigEndian: "BigEndianToUint64 (Uint64ToBigEndian i) = Inr i"
  by (simp add: BigEndianToUint64_def length_Uint64ToBigEndian Uint64_Uint64ToBigEndian)

lemma HasBTCValidator_kvstore_update [simp]:
  "HasBTCValidator (s\<lparr>kvstore := kv\<rparr>) pk = HasBTCValidator s pk"
  by (simp add: HasBTCValidator_def)

lemma votingPowerStore_kvstore_update [simp]:
  "votingPowerStore (s\<lparr>kvstore := kv\<rparr>) h = votingPowerStore s h"
  by (simp add: votingPowerStore_def)

text \<open>
  Claim C10. Writing then reading: for a validator key known to the registry (and not
  empty, as the store demands of a key), \<open>SetVotingPower\<close> returns, and \<open>GetVotingPower\<close>
  on the state it leaves returns exactly the power written, for every height and every
  \<open>uint64\<close> power, 0 included.
\<close>

theorem SetVotingPower_GetVotingPower:
  assumes "HasBTCValidator s valBTCPK" and "valBTCPK \<noteq> []"
  shows "\<exists>s'. SetVotingPower s valBTCPK height pwr = Inr s' \<and>
              GetVotingPower s' valBTCPK height = Inr pwr"
proof -
  let ?s' = "s\<lparr>kvstore :=
    kv_Set (kvstore s) (votingPowerStore s height @ valBTCPK) (Uint64ToBigEndian pwr)\<rparr>"
  have set: "SetVotingPower s valBTCPK height pwr = Inr ?s'"
    using assms(2) by (simp add: SetVotingPower_def prefix_Set_def)
  have get: "prefix_Get (votingPowerStore ?s' height) (kvstore ?s') valBTCPK =
      Some (Uint64ToBigEndian pwr)"
    by (simp add: prefix_Get_def kv_Get_kv_Set)
  have "GetVotingPower ?s' valBTCPK height = Inr pwr"
    unfolding GetVotingPower_def get
    using assms(1) by (simp add: BigEndianToUint64_Uint64ToBigEndian length_Uint64ToBigEndian)
  with set show ?thesis by blast
qed

theorem SetVotingPower_GetVotingPower_witness:
  "HasBTCValidator scenarioState pkA \<and> pkA \<noteq> [] \<and>
   (\<exists>s'. SetVotingPower scenarioState pkA 11 0 = Inr s' \<and> GetVotingPower s' pkA 11 = Inr 0)"
  using SetVotingPower_GetVotingPower [of scenarioState pkA 11 0]
  by (simp add: HasBTCValidator_def scenarioState_def pkA_def)

text \<open>
  Claim C8. \<open>GetVotingPower\<close> returns 0, and no error, for a key the validator registry does
  not know, whatever the store holds, and for a key it knows that has no entry at the
  height: the two cases give the same result.
\<close>

theorem GetVotingPower_unknown_or_absent:
  "(\<not> HasBTCValidator s valBTCPK \<longrightarrow> GetVotingPower s valBTCPK height = Inr 0) \<and>
   (HasBTCValidator s valBTCPK \<and>
    kv_Get (kvstore s) (VotingPowerKey s @ Uint64ToBigEndian height @ valBTCPK) = None
      \<longrightarrow> GetVotingPower s valBTCPK height = Inr 0)"
  by (simp add: GetVotingPower_def prefix_Get_def votingPowerStore_def)

theorem GetVotingPower_unknown_or_absent_witness:
  "\<not> HasBTCValidator scenarioState delE \<and> GetVotingPower scenarioState delE 10 = Inr 0 \<and>
   HasBTCValidator scenarioState pkA \<and>
   kv_Get (kvstore scenarioState)
     (VotingPowerKey scenarioState @ Uint64ToBigEndian 11 @ pkA) = None \<and>
   GetVotingPower scenarioState pkA 11 = Inr 0"
proof -
  have unknown: "\<not> HasBTCValidator scenarioState delE"
    by (simp add: HasBTCValidator_def scenarioState_def pkA_def pkB_def pkC_def pkD_def delE_def)
  have known: "HasBTCValidator scenarioState pkA"
    by (simp add: HasBTCValidator_def scenarioState_def)
  have absent: "kv_Get (kvstore scenarioState)
      (VotingPowerKey scenarioState @ Uint64ToBigEndian 11 @ pkA) = None"
    by (simp add: kv_Get_def scenarioState_def Uint64ToBigEndian_def)
  show ?thesis
    using GetVotingPower_unknown_or_absent [of scenarioState delE 10]
      GetVotingPower_unknown_or_absent [of scenarioState pkA 11] unknown known absent
    by simp
qed

text \<open>
  Claim C2 says that \<open>GetVotingPower\<close> returns 0 for every key that is slashed in the
  registry. \<open>GetVotingPower\<close> asks the registry only whether it has the key, not whether the
  validator is slashed: in \<open>scenarioState\<close> the validator \<open>pkD\<close> is slashed, and its power at
  height 10, recorded before, is still returned.
\<close>

theorem GetVotingPower_slashed_counterexample:
  "slashedValidator scenarioState pkD \<and> GetVotingPower scenarioState pkD 10 = Inr 500 \<and>
   GetVotingPower scenarioState pkD 10 \<noteq> Inr 0"
proof -
  have "slashedValidator scenarioState pkD"
    by (simp add: slashedValidator_def scenarioState_def pkA_def pkB_def pkC_def pkD_def)
  moreover have "GetVotingPower scenarioState pkD 10 = Inr 500"
    by (simp add: GetVotingPower_def HasBTCValidator_def scenarioState_def prefix_Get_def
        kv_Get_def votingPowerStore_def BigEndianToUint64_Uint64ToBigEndian
        length_Uint64ToBigEndian pkA_def pkD_def)
  ultimately show ?thesis by simp
qed

text \<open>
  Claim C2, as amended. \<open>GetVotingPower\<close> returns 0 whenever the key has no entry in the
  table of the height; for a key that is slashed in the registry and has an entry there, it
  returns the power stored.
\<close>

theorem GetVotingPower_absent_or_stored:
  "(kv_Get (kvstore s) (VotingPowerKey s @ Uint64ToBigEndian height @ valBTCPK) = None
      \<longrightarrow> GetVotingPower s valBTCPK height = Inr 0) \<and>
   (slashedValidator s valBTCPK \<and>
    kv_Get (kvstore s) (VotingPowerKey s @ Uint64ToBigEndian height @ valBTCPK) =
      Some (Uint64ToBigEndian pwr)
      \<longrightarrow> GetVotingPower s valBTCPK height = Inr pwr)"
proof -
  have "HasBTCValidator s valBTCPK" if "slashedValidator s valBTCPK"
    using that by (force simp: slashedValidator_def HasBTCValidator_def)
  then show ?thesis
    by (simp add: GetVotingPower_def prefix_Get_def votingPowerStore_def
        BigEndianToUint64_Uint64ToBigEndian length_Uint64ToBigEndian)
qed

theorem GetVotingPower_absent_or_stored_witness:
  "kv_Get (kvstore scenarioState)
     (VotingPowerKey scenarioState @ Uint64ToBigEndian 11 @ pkD) = None \<and>
   GetVotingPower scenarioState pkD 11 = Inr 0 \<and>
   slashedValidator scenarioState pkD \<and>
   kv_Get (kvstore scenarioState)
     (VotingPowerKey scenarioState @ Uint64ToBigEndian 10 @ pkD) = Some (Uint64ToBigEndian 500) \<and>
   GetVotingPower scenarioState pkD 10 = Inr 500"
proof -
  have absent: "kv_Get (kvstore scenarioState)
      (VotingPowerKey scenarioState @ Uint64ToBigEndian 11 @ pkD) = None"
    by (simp add: kv_Get_def scenarioState_def Uint64ToBigEndian_def)
  have slashed: "slashedValidator scenarioState pkD"
    by (simp add: slashedValidator_def scenarioState_def pkA_def pkB_def pkC_def pkD_def)
  have stored: "kv_Get (kvstore scenarioState)
      (VotingPowerKey scenarioState @ Uint64ToBigEndian 10 @ pkD) = Some (Uint64ToBigEndian 500)"
    by (simp add: kv_Get_def scenarioState_def pkA_def pkD_def)
  show ?thesis
    using GetVotingPower_absent_or_stored [of scenarioState 11 pkD 0]
      GetVotingPower_absent_or_stored [of scenarioState 10 pkD 500] absent slashed stored
    by simp
qed

section \<open>The activation height\<close>

lemma sorted_prefix_Iterator:
  assumes "store_ok kv"
  shows "sorted_wrt (<) (map fst (prefix_Iterator pre kv))"
proof -
  let ?n = "length pre"
  let ?ks = "filter (\<lambda>k. take ?n k = pre) (map fst kv)"
  have eq: "map fst (prefix_Iterator pre kv) = map (drop ?n) ?ks"
    by (induction kv) (auto simp: prefix_Iterator_def)
  have "sorted_wrt (<) ?ks"
    using assms by (simp add: store_ok_def sorted_wrt_filter)
  moreover have "drop ?n x < drop ?n y" if "x \<in> set ?ks" "y \<in> set ?ks" "x < y" for x y
  proof -
    from that have "take ?n x = pre" "take ?n y = pre" by auto
    then have "x = pre @ drop ?n x" "y = pre @ drop ?n y"
      using append_take_drop_id [of ?n x] append_take_drop_id [of ?n y] by simp_all
    with \<open>x < y\<close> show ?thesis by (metis append_same_less)
  qed
  ultimately have "sorted_wrt (\<lambda>x y. drop ?n x < drop ?n y) ?ks"
    by (rule sorted_wrt_mono_rel [rotated]) 
  then show ?thesis by (simp add: eq sorted_wrt_map)
qed

lemma HasVotingPowerTable_iff:
  "HasVotingPowerTable s height \<longleftrightarrow>
     (\<exists>pk v. (Uint64ToBigEndian height @ pk, v) \<in> set (prefix_Iterator (VotingPowerKey s) (kvstore s)))"
proof -
  have "HasVotingPowerTable s height \<longleftrightarrow>
      (\<exists>pk v. (pk, v) \<in> set (prefix_Iterator (votingPowerStore s height) (kvstore s)))"
    unfolding HasVotingPowerTable_def
    by (cases "prefix_Iterator (votingPowerStore s height) (kvstore s)") auto
  then show ?thesis
    by (simp add: prefix_Iterator_mem votingPowerStore_def)
qed

lemma height_segment:
  assumes "8 \<le> length k"
  shows "k = Uint64ToBigEndian (Uint64 k) @ drop 8 k"
proof -
  have "Uint64ToBigEndian (Uint64 (take 8 k)) = take 8 k"
    using assms by (intro Uint64ToBigEndian_Uint64) simp
  then have "Uint64ToBigEndian (Uint64 k) = take 8 k"
    using assms by (simp add: Uint64_take)
  then show ?thesis by simp
qed

lemma Uint64_height_segment: "Uint64 (Uint64ToBigEndian height @ pk) = height"
proof -
  have "Uint64 (take 8 (Uint64ToBigEndian height @ pk)) = Uint64 (Uint64ToBigEndian height @ pk)"
    by (intro Uint64_take) (simp add: length_Uint64ToBigEndian)
  then show ?thesis
    by (simp add: length_Uint64ToBigEndian Uint64_Uint64ToBigEndian)
qed

lemma first_key_least:
  assumes ok: "store_ok kv"
    and it: "prefix_Iterator pre kv = (k0, v0) # rest"
    and mem: "(k, v) \<in> set (prefix_Iterator pre kv)"
  shows "k0 \<le> k"
proof -
  have "sorted_wrt (<) (k0 # map fst rest)"
    using sorted_prefix_Iterator [OF ok, of pre] it by simp
  then have "\<forall>x \<in> set (map fst rest). k0 < x" by simp
  moreover from mem it have "k = k0 \<or> k \<in> set (map fst rest)" by force
  ultimately show ?thesis by auto
qed

section \<open>The tally on the example state\<close>

lemmas scenario_defs = scenarioState_def scenarioDelegators_def pkA_def pkB_def pkC_def pkD_def
  delE_def delF_def

lemma scenario_collect:
  "collectActive scenarioState 800000 (btcValidatorStore scenarioState) [] =
     Inr [\<lparr>BtcPk = pkA, VotingPower = 100\<rparr>, \<lparr>BtcPk = pkB, VotingPower = 80\<rparr>,
          \<lparr>BtcPk = pkC, VotingPower = 80\<rparr>]"
  by (simp add: scenario_defs NewBIP340PubKey_def)

lemma scenario_top:
  "FilterTopNBTCValidators [\<lparr>BtcPk = pkA, VotingPower = 100\<rparr>, \<lparr>BtcPk = pkB, VotingPower = 80\<rparr>,
          \<lparr>BtcPk = pkC, VotingPower = 80\<rparr>] 2 =
     [\<lparr>BtcPk = pkA, VotingPower = 100\<rparr>, \<lparr>BtcPk = pkB, VotingPower = 80\<rparr>]"
  by (simp add: FilterTopNBTCValidators_def ranksBefore_def pkA_def pkB_def pkC_def)

lemma scenario_set:
  "setVotingPowers scenarioState 11
     [\<lparr>BtcPk = pkA, VotingPower = 100\<rparr>, \<lparr>BtcPk = pkB, VotingPower = 80\<rparr>] = Inr talliedState"
  by (simp add: SetVotingPower_def prefix_Set_def votingPowerStore_def talliedState_def
      scenarioState_def pkA_def pkB_def pkC_def pkD_def Uint64ToBigEndian_def)

lemma scenario_tally: "RecordVotingPowerTable scenarioState = Inr talliedState"
proof -
  have "CurrentBTCHeight scenarioState = Some 800000" "MaxActiveBtcValidators scenarioState = 2"
    "BlockHeight scenarioState = 11"
    by (simp_all add: scenarioState_def)
  then show ?thesis
    by (simp add: RecordVotingPowerTable_def scenario_collect scenario_top scenario_set
        del: setVotingPowers.simps)
qed

lemma tallied_store_ok: "store_ok (kvstore talliedState)"
  by (simp add: store_ok_def talliedState_def scenarioState_def Uint64ToBigEndian_def
      pkA_def pkB_def pkD_def)

lemma tallied_keys_ok: "votingPowerKeys_ok talliedState"
  by (simp add: votingPowerKeys_ok_def prefix_Iterator_def talliedState_def scenarioState_def
      length_Uint64ToBigEndian)

lemma tallied_iterator:
  "prefix_Iterator (VotingPowerKey talliedState) (kvstore talliedState) =
     [(Uint64ToBigEndian 10 @ pkA, Uint64ToBigEndian 100),
      (Uint64ToBigEndian 10 @ pkD, Uint64ToBigEndian 500),
      (Uint64ToBigEndian 11 @ pkA, Uint64ToBigEndian 100),
      (Uint64ToBigEndian 11 @ pkB, Uint64ToBigEndian 80)]"
  by (simp add: prefix_Iterator_def talliedState_def scenarioState_def)

lemma tallied_has_11: "HasVotingPowerTable talliedState 11"
  by (simp add: HasVotingPowerTable_iff tallied_iterator) blast


text \<open>
  Claim C1. In a store whose voting power keys all start with a height segment:
  when some height has a table, \<open>GetBTCStakingActivatedHeight\<close> returns the least such
  height; when none has, it returns \<open>ErrBTCStakingNotActivated\<close>; \<open>IsBTCStakingActivated\<close>
  holds exactly when some height has a table; and the height returned is the one encoded
  in the height segment of the first key, whatever validator key follows it.
\<close>

theorem activation_height:
  assumes ok: "store_ok (kvstore s)" and keys: "votingPowerKeys_ok s"
  shows
    "((\<exists>H. HasVotingPowerTable s H) \<longrightarrow>
        (\<exists>H. GetBTCStakingActivatedHeight s = Inr H \<and> HasVotingPowerTable s H \<and>
             (\<forall>H'. HasVotingPowerTable s H' \<longrightarrow> H \<le> H'))) \<and>
     ((\<forall>H. \<not> HasVotingPowerTable s H) \<longrightarrow>
        GetBTCStakingActivatedHeight s = Inl ErrBTCStakingNotActivated) \<and>
     (IsBTCStakingActivated s \<longleftrightarrow> (\<exists>H. HasVotingPowerTable s H)) \<and>
     (\<forall>H pk v rest.
        prefix_Iterator (VotingPowerKey s) (kvstore s) = (Uint64ToBigEndian H @ pk, v) # rest
          \<longrightarrow> GetBTCStakingActivatedHeight s = Inr H)"
proof (cases "prefix_Iterator (VotingPowerKey s) (kvstore s)")
  case Nil
  then have "\<not> HasVotingPowerTable s H" for H
    by (simp add: HasVotingPowerTable_iff)
  then show ?thesis
    using Nil by (simp add: GetBTCStakingActivatedHeight_def IsBTCStakingActivated_def)
next
  case (Cons e rest)
  obtain k0 v0 where e: "e = (k0, v0)" by (cases e)
  note it = Cons [unfolded e]
  have len: "8 \<le> length k0"
    using keys it by (auto simp: votingPowerKeys_ok_def)
  define H0 where "H0 = Uint64 k0"
  have k0: "k0 = Uint64ToBigEndian H0 @ drop 8 k0"
    unfolding H0_def by (rule height_segment [OF len])
  have "BigEndianToUint64 k0 = Inr H0"
    using len by (auto simp: BigEndianToUint64_def H0_def)
  then have get: "GetBTCStakingActivatedHeight s = Inr H0"
    using it by (simp add: GetBTCStakingActivatedHeight_def)
  have "(Uint64ToBigEndian H0 @ drop 8 k0, v0) \<in> set (prefix_Iterator (VotingPowerKey s) (kvstore s))"
    using it k0 by simp
  then have has: "HasVotingPowerTable s H0"
    unfolding HasVotingPowerTable_iff by blast
  have least: "H0 \<le> H'" if "HasVotingPowerTable s H'" for H'
  proof (rule ccontr)
    assume "\<not> H0 \<le> H'"
    then have less: "Uint64ToBigEndian H' < Uint64ToBigEndian H0"
      by (simp add: Uint64ToBigEndian_less_iff)
    from that obtain pk v
      where mem: "(Uint64ToBigEndian H' @ pk, v) \<in> set (prefix_Iterator (VotingPowerKey s) (kvstore s))"
      unfolding HasVotingPowerTable_iff by blast
    from less have "Uint64ToBigEndian H' @ pk < Uint64ToBigEndian H0 @ drop 8 k0"
      by (simp add: append_less_append length_Uint64ToBigEndian)
    then have "Uint64ToBigEndian H' @ pk < k0" using k0 by simp
    moreover have "k0 \<le> Uint64ToBigEndian H' @ pk"
      by (rule first_key_least [OF ok it mem])
    ultimately show False by simp
  qed
  have first: "GetBTCStakingActivatedHeight s = Inr H"
    if "prefix_Iterator (VotingPowerKey s) (kvstore s) = (Uint64ToBigEndian H @ pk, v) # rest'"
    for H pk v rest'
  proof -
    from that it have "k0 = Uint64ToBigEndian H @ pk" by simp
    then have "H0 = H" by (simp add: H0_def Uint64_height_segment)
    with get show ?thesis by simp
  qed
  have act: "IsBTCStakingActivated s"
    using it by (simp add: IsBTCStakingActivated_def)
  show ?thesis
    using get has least first act by blast
qed

theorem activation_height_witness:
  "store_ok (kvstore talliedState) \<and> votingPowerKeys_ok talliedState \<and>
   HasVotingPowerTable talliedState 10 \<and> HasVotingPowerTable talliedState 11 \<and>
   GetBTCStakingActivatedHeight talliedState = Inr 10 \<and> IsBTCStakingActivated talliedState"
proof -
  have has10: "HasVotingPowerTable talliedState 10"
    by (simp add: HasVotingPowerTable_iff tallied_iterator) blast
  from activation_height [OF tallied_store_ok tallied_keys_ok] tallied_iterator tallied_has_11 has10
  show ?thesis
    using tallied_store_ok tallied_keys_ok by blast
qed

section \<open>Writing into the store\<close>

lemma set_kv_Set_subset: "set (kv_Set kv k v) \<subseteq> insert (k, v) (set kv)"
  by (induction kv k v rule: kv_Set.induct) auto

lemma prefix_Iterator_kv_Set_other:
  "take (length pre) k \<noteq> pre \<Longrightarrow> prefix_Iterator pre (kv_Set kv k v) = prefix_Iterator pre kv"
  by (induction kv k v rule: kv_Set.induct) (auto simp: prefix_Iterator_def)

lemma length_prefix_Iterator_kv_Set:
  "length (prefix_Iterator pre (kv_Set kv k v)) \<le> Suc (length (prefix_Iterator pre kv))"
  by (induction kv k v rule: kv_Set.induct) (auto simp: prefix_Iterator_def)

lemma set_prefix_Iterator_kv_Set:
  "set (prefix_Iterator pre (kv_Set kv (pre @ k) v)) \<subseteq> insert (k, v) (set (prefix_Iterator pre kv))"
proof
  fix e assume e: "e \<in> set (prefix_Iterator pre (kv_Set kv (pre @ k) v))"
  obtain k' v' where [simp]: "e = (k', v')" by (cases e)
  from e have "(pre @ k', v') \<in> set (kv_Set kv (pre @ k) v)"
    by (simp add: prefix_Iterator_mem)
  then have "(pre @ k', v') = (pre @ k, v) \<or> (pre @ k', v') \<in> set kv"
    using set_kv_Set_subset [of kv "pre @ k" v] by auto
  then show "e \<in> insert (k, v) (set (prefix_Iterator pre kv))"
    by (auto simp: prefix_Iterator_mem)
qed

lemma SetVotingPower_Inr:
  assumes "SetVotingPower s pk h p = Inr s'"
  shows "s' = s\<lparr>kvstore := kv_Set (kvstore s) (votingPowerStore s h @ pk) (Uint64ToBigEndian p)\<rparr>"
    and "pk \<noteq> []"
  using assms by (auto simp: SetVotingPower_def prefix_Set_def split: if_splits)

lemma votingPowerStore_take:
  "take (length (votingPowerStore s h')) (votingPowerStore s h @ pk) = votingPowerStore s h"
  by (simp add: votingPowerStore_def length_Uint64ToBigEndian)

lemma votingPowerStore_eq_iff: "votingPowerStore s h = votingPowerStore s h' \<longleftrightarrow> h = h'"
  by (simp add: votingPowerStore_def Uint64ToBigEndian_inj)

lemma setVotingPowers_fields:
  "setVotingPowers s h es = Inr s' \<Longrightarrow> s' = s\<lparr>kvstore := kvstore s'\<rparr>"
proof (induction es arbitrary: s)
  case Nil
  then show ?case by simp
next
  case (Cons e es)
  then obtain s1 where s1: "SetVotingPower s (BtcPk e) h (VotingPower e) = Inr s1"
    and rest: "setVotingPowers s1 h es = Inr s'"
    by (auto split: sum.splits)
  from Cons.IH [OF rest] SetVotingPower_Inr(1) [OF s1] show ?case
    by (metis (no_types, lifting) keeper_state.surjective keeper_state.update_convs(1))
qed

lemma setVotingPowers_other_height:
  assumes "setVotingPowers s h es = Inr s'" and "h' \<noteq> h"
  shows "prefix_Iterator (votingPowerStore s h') (kvstore s') =
         prefix_Iterator (votingPowerStore s h') (kvstore s)"
  using assms(1)
proof (induction es arbitrary: s)
  case Nil
  then show ?case by simp
next
  case (Cons e es)
  then obtain s1 where s1: "SetVotingPower s (BtcPk e) h (VotingPower e) = Inr s1"
    and rest: "setVotingPowers s1 h es = Inr s'"
    by (auto split: sum.splits)
  note upd = SetVotingPower_Inr(1) [OF s1]
  have vps: "votingPowerStore s1 x = votingPowerStore s x" for x
    by (subst upd) simp
  have "take (length (votingPowerStore s h')) (votingPowerStore s h @ BtcPk e) \<noteq>
        votingPowerStore s h'"
    using assms(2) by (metis votingPowerStore_take votingPowerStore_eq_iff)
  then have "prefix_Iterator (votingPowerStore s h') (kvstore s1) =
        prefix_Iterator (votingPowerStore s h') (kvstore s)"
    by (subst upd) (simp add: prefix_Iterator_kv_Set_other)
  with Cons.IH [OF rest] show ?case by (simp add: vps)
qed

lemma setVotingPowers_Get_other:
  assumes "setVotingPowers s h es = Inr s'"
    and "\<forall>e \<in> set es. votingPowerStore s h @ BtcPk e \<noteq> K"
  shows "kv_Get (kvstore s') K = kv_Get (kvstore s) K"
  using assms
proof (induction es arbitrary: s)
  case Nil
  then show ?case by simp
next
  case (Cons e es)
  then obtain s1 where s1: "SetVotingPower s (BtcPk e) h (VotingPower e) = Inr s1"
    and rest: "setVotingPowers s1 h es = Inr s'"
    by (auto split: sum.splits)
  note upd = SetVotingPower_Inr(1) [OF s1]
  have vps: "votingPowerStore s1 x = votingPowerStore s x" for x
    by (subst upd) simp
  have "kv_Get (kvstore s1) K = kv_Get (kvstore s) K"
    using Cons.prems(2) by (subst upd) (auto simp: kv_Get_kv_Set)
  moreover have "kv_Get (kvstore s') K = kv_Get (kvstore s1) K"
    using Cons.prems(2) by (intro Cons.IH [OF rest]) (simp add: vps)
  ultimately show ?case by simp
qed

lemma setVotingPowers_entries:
  assumes "setVotingPowers s h es = Inr s'"
  shows "set (prefix_Iterator (votingPowerStore s h) (kvstore s')) \<subseteq>
           set (prefix_Iterator (votingPowerStore s h) (kvstore s)) \<union>
           (\<lambda>e. (BtcPk e, Uint64ToBigEndian (VotingPower e))) ` set es"
    and "length (prefix_Iterator (votingPowerStore s h) (kvstore s')) \<le>
           length (prefix_Iterator (votingPowerStore s h) (kvstore s)) + length es"
  using assms
proof (induction es arbitrary: s)
  case Nil
  { case 1 then show ?case by simp }
  { case 2 then show ?case by simp }
next
  case (Cons e es)
  { case 1
    then obtain s1 where s1: "SetVotingPower s (BtcPk e) h (VotingPower e) = Inr s1"
      and rest: "setVotingPowers s1 h es = Inr s'"
      by (auto split: sum.splits)
    note upd = SetVotingPower_Inr(1) [OF s1]
    have vps: "votingPowerStore s1 x = votingPowerStore s x" for x
      by (subst upd) simp
    have "set (prefix_Iterator (votingPowerStore s h) (kvstore s1)) \<subseteq>
        insert (BtcPk e, Uint64ToBigEndian (VotingPower e))
          (set (prefix_Iterator (votingPowerStore s h) (kvstore s)))"
      by (subst upd) (simp add: set_prefix_Iterator_kv_Set)
    with Cons.IH(1) [OF rest] show ?case by (auto simp: vps) }
  { case 2
    then obtain s1 where s1: "SetVotingPower s (BtcPk e) h (VotingPower e) = Inr s1"
      and rest: "setVotingPowers s1 h es = Inr s'"
      by (auto split: sum.splits)
    note upd = SetVotingPower_Inr(1) [OF s1]
    have vps: "votingPowerStore s1 x = votingPowerStore s x" for x
      by (subst upd) simp
    have "length (prefix_Iterator (votingPowerStore s h) (kvstore s1)) \<le>
        Suc (length (prefix_Iterator (votingPowerStore s h) (kvstore s)))"
      by (subst upd) (simp add: length_prefix_Iterator_kv_Set)
    with Cons.IH(2) [OF rest] show ?case by (simp add: vps) }
qed

section \<open>The loops of the tally\<close>

lemma sumVotingPower_eq:
  assumes "\<forall>(dk, d) \<in> set dels. length dk = BIP340PubKeyLen s \<and> d \<noteq> None"
  shows "sumVotingPower s t dels acc = Inr (acc + sum_list (map (delegationScore s t) dels))"
  using assms
proof (induction dels arbitrary: acc)
  case Nil
  then show ?case by simp
next
  case (Cons e dels)
  obtain dk d where e: "e = (dk, d)" by (cases e)
  from Cons.prems obtain f where d: "d = Some f" and len: "length dk = BIP340PubKeyLen s"
    by (auto simp: e)
  from Cons.prems have rest: "\<forall>(dk, d) \<in> set dels. length dk = BIP340PubKeyLen s \<and> d \<noteq> None"
    by simp
  show ?case
    by (simp add: e d len NewBIP340PubKey_def Cons.IH [OF rest] delegationScore_def add.assoc)
qed

lemma collectActive_activeEntry:
  assumes "collectActive s t vals acc = Inr out"
    and "set vals \<subseteq> set (btcValidatorStore s)"
    and "\<forall>e \<in> set acc. activeEntry s e"
  shows "\<forall>e \<in> set out. activeEntry s e"
  using assms
proof (induction vals arbitrary: acc)
  case Nil
  then show ?case by simp
next
  case (Cons x vals)
  obtain k v where x: "x = (k, v)" by (cases x)
  from Cons.prems(1) obtain b where v: "v = Some b" and len: "length k = BIP340PubKeyLen s"
    by (auto simp: x NewBIP340PubKey_def split: if_splits option.splits)
  from Cons.prems(2) have mem: "(k, Some b) \<in> set (btcValidatorStore s)"
    and sub: "set vals \<subseteq> set (btcValidatorStore s)"
    by (auto simp: x v)
  show ?case
  proof (cases "IsSlashed b")
    case True
    with Cons.prems(1) have "collectActive s t vals acc = Inr out"
      by (simp add: x v len NewBIP340PubKey_def)
    from Cons.IH [OF this sub Cons.prems(3)] show ?thesis .
  next
    case False
    with Cons.prems(1) obtain p where p: "sumVotingPower s t (btcDelegatorStore s k) 0 = Inr p"
      by (auto simp: x v len NewBIP340PubKey_def split: sum.splits)
    show ?thesis
    proof (cases "0 < p")
      case True
      with Cons.prems(1) False p
      have run: "collectActive s t vals (acc @ [\<lparr>BtcPk = k, VotingPower = p\<rparr>]) = Inr out"
        by (simp add: x v len NewBIP340PubKey_def)
      have "activeEntry s \<lparr>BtcPk = k, VotingPower = p\<rparr>"
        using True len mem False by (auto simp: activeEntry_def)
      with Cons.prems(3) have "\<forall>e \<in> set (acc @ [\<lparr>BtcPk = k, VotingPower = p\<rparr>]). activeEntry s e"
        by simp
      from Cons.IH [OF run sub this] show ?thesis .
    next
      case notpos: False
      with Cons.prems(1) False p have "collectActive s t vals acc = Inr out"
        by (simp add: x v len NewBIP340PubKey_def)
      from Cons.IH [OF this sub Cons.prems(3)] show ?thesis .
    qed
  qed
qed

lemma collectActive_none:
  assumes "\<forall>(k, v) \<in> set vals.
        length k = BIP340PubKeyLen s \<and> v \<noteq> None \<and>
        (\<forall>(dk, d) \<in> set (btcDelegatorStore s k). length dk = BIP340PubKeyLen s \<and> d \<noteq> None)"
    and "\<forall>(k, v) \<in> set vals. \<forall>b. v = Some b \<and> \<not> IsSlashed b \<longrightarrow> totalScore s t k = 0"
  shows "collectActive s t vals acc = Inr acc"
  using assms
proof (induction vals)
  case Nil
  then show ?case by simp
next
  case (Cons x vals)
  obtain k v where x: "x = (k, v)" by (cases x)
  from Cons.prems(1) obtain b where v: "v = Some b" and len: "length k = BIP340PubKeyLen s"
    and dels: "\<forall>(dk, d) \<in> set (btcDelegatorStore s k). length dk = BIP340PubKeyLen s \<and> d \<noteq> None"
    by (auto simp: x)
  have sum: "sumVotingPower s t (btcDelegatorStore s k) 0 = Inr (totalScore s t k)"
    by (simp add: sumVotingPower_eq [OF dels] totalScore_def)
  have zero: "\<not> IsSlashed b \<Longrightarrow> totalScore s t k = 0"
    using Cons.prems(2) by (simp add: x v)
  have "collectActive s t vals acc = Inr acc"
    using Cons.prems by (intro Cons.IH) simp_all
  then show ?case
    using zero by (simp add: x v len NewBIP340PubKey_def sum)
qed

lemma collectActive_returns:
  assumes "\<forall>(k, v) \<in> set vals.
        length k = BIP340PubKeyLen s \<and> v \<noteq> None \<and>
        (\<forall>(dk, d) \<in> set (btcDelegatorStore s k). length dk = BIP340PubKeyLen s \<and> d \<noteq> None)"
  shows "\<exists>out. collectActive s t vals acc = Inr out"
  using assms
proof (induction vals arbitrary: acc)
  case Nil
  then show ?case by simp
next
  case (Cons x vals)
  obtain k v where x: "x = (k, v)" by (cases x)
  from Cons.prems(1) obtain b where v: "v = Some b" and len: "length k = BIP340PubKeyLen s"
    and dels: "\<forall>(dk, d) \<in> set (btcDelegatorStore s k). length dk = BIP340PubKeyLen s \<and> d \<noteq> None"
    by (auto simp: x)
  have sum: "sumVotingPower s t (btcDelegatorStore s k) 0 = Inr (totalScore s t k)"
    by (simp add: sumVotingPower_eq [OF dels] totalScore_def)
  have rest: "\<exists>out. collectActive s t vals acc' = Inr out" for acc'
    using Cons.prems by (intro Cons.IH) simp_all
  show ?case
    using rest by (simp add: x v len NewBIP340PubKey_def sum)
qed

section \<open>The ranking\<close>

lemma set_insertRanked: "set (insertRanked a bs) = insert a (set bs)"
  by (induction bs) auto

lemma length_insertRanked: "length (insertRanked a bs) = Suc (length bs)"
  by (induction bs) auto

lemma set_foldr_insertRanked: "set (foldr insertRanked xs []) = set xs"
  by (induction xs) (simp_all add: set_insertRanked)

lemma set_FilterTopNBTCValidators: "set (FilterTopNBTCValidators xs n) \<subseteq> set xs"
  unfolding FilterTopNBTCValidators_def
  using set_take_subset [of "unat n" "foldr insertRanked xs []"]
  by (simp add: set_foldr_insertRanked)

lemma length_FilterTopNBTCValidators: "length (FilterTopNBTCValidators xs n) \<le> unat n"
  by (simp add: FilterTopNBTCValidators_def)

section \<open>A run of the tally\<close>

lemma RecordVotingPowerTable_Inr:
  assumes "RecordVotingPowerTable s = Inr s'"
  shows "s' = s \<or>
    (\<exists>written. (\<forall>e \<in> set written. activeEntry s e) \<and>
       length written \<le> unat (MaxActiveBtcValidators s) \<and>
       setVotingPowers s (BlockHeight s) written = Inr s')"
proof (cases "CurrentBTCHeight s")
  case None
  with assms show ?thesis by (simp add: RecordVotingPowerTable_def)
next
  case (Some t)
  with assms obtain active where active: "collectActive s t (btcValidatorStore s) [] = Inr active"
    by (auto simp: RecordVotingPowerTable_def split: sum.splits)
  show ?thesis
  proof (cases "active = []")
    case True
    with assms Some active show ?thesis by (simp add: RecordVotingPowerTable_def)
  next
    case False
    let ?written = "FilterTopNBTCValidators active (MaxActiveBtcValidators s)"
    from assms Some active False have "setVotingPowers s (BlockHeight s) ?written = Inr s'"
      by (simp add: RecordVotingPowerTable_def)
    moreover have "\<forall>e \<in> set active. activeEntry s e"
      using collectActive_activeEntry [OF active] by simp
    then have "\<forall>e \<in> set ?written. activeEntry s e"
      using set_FilterTopNBTCValidators [of active "MaxActiveBtcValidators s"] by blast
    ultimately show ?thesis
      using length_FilterTopNBTCValidators [of active "MaxActiveBtcValidators s"] by blast
  qed
qed

section \<open>Facts about the example states\<close>

lemma scenario_height: "BlockHeight scenarioState = 11"
  by (simp add: scenarioState_def)

lemma scenario_no_table_11: "\<not> HasVotingPowerTable scenarioState 11"
  by (simp add: HasVotingPowerTable_iff scenarioState_def prefix_Iterator_def
      length_Uint64ToBigEndian Uint64ToBigEndian_inj)

lemma scenario_tables_ok: "tables_ok scenarioState"
  by (auto simp: tables_ok_def scenarioState_def prefix_Iterator_def votingPowerStore_def
      length_Uint64ToBigEndian Uint64ToBigEndian_inj)

lemma idle_registry_ok: "registry_ok idleState"
  by (simp add: registry_ok_def idleState_def scenarioState_def idleDelegators_def
      pkA_def pkB_def pkC_def pkD_def delE_def delF_def)

lemma idle_scores:
  "\<forall>t. CurrentBTCHeight idleState = Some t \<longrightarrow>
     (\<forall>(k, v) \<in> set (btcValidatorStore idleState).
        \<forall>b. v = Some b \<and> \<not> IsSlashed b \<longrightarrow> totalScore idleState t k = 0)"
  by (simp add: idleState_def scenarioState_def idleDelegators_def totalScore_def
      delegationScore_def pkA_def pkB_def pkC_def pkD_def)

lemma scenario_distinct: "distinct (map fst (btcValidatorStore scenarioState))"
  by (simp add: scenarioState_def pkA_def pkB_def pkC_def pkD_def)

lemma scenario_slashed: "slashedValidator scenarioState pkD"
  by (simp add: slashedValidator_def scenarioState_def pkA_def pkB_def pkC_def pkD_def)

section \<open>The claims about the tally\<close>

lemma valSetLoop_kvstore_update [simp]:
  "valSetLoop (s\<lparr>kvstore := kv\<rparr>) iter valSet = valSetLoop s iter valSet"
proof (induction iter arbitrary: valSet)
  case Nil
  show ?case by simp
next
  case (Cons x iter)
  obtain k v where x: "x = (k, v)" by (cases x)
  show ?case
    by (auto simp: x NewBIP340PubKey_def split: sum.splits intro: Cons.IH)
qed

lemma absent_if_no_table:
  assumes "\<not> HasVotingPowerTable s H"
  shows "kv_Get (kvstore s) (votingPowerStore s H @ pk) = None"
proof (rule ccontr)
  assume "kv_Get (kvstore s) (votingPowerStore s H @ pk) \<noteq> None"
  then obtain v where "map_of (kvstore s) (votingPowerStore s H @ pk) = Some v"
    by (auto simp: kv_Get_def)
  then have "(votingPowerStore s H @ pk, v) \<in> set (kvstore s)"
    by (rule map_of_SomeD)
  then have "(pk, v) \<in> set (prefix_Iterator (votingPowerStore s H) (kvstore s))"
    by (simp add: prefix_Iterator_mem)
  with assms show False by (auto simp: HasVotingPowerTable_def)
qed

text \<open>
  Claim C5. When the lookup of the Bitcoin tip height fails, \<open>RecordVotingPowerTable\<close>
  returns, without a panic, and leaves the state as it was: nothing is written for the
  height. Whatever the next block makes of the state (\<open>advance\<close>), the run of the tally in
  the next block is the run it would have been without the failed one.
\<close>

theorem tip_lookup_failure:
  assumes "CurrentBTCHeight s = None"
  shows "RecordVotingPowerTable s = Inr s \<and>
         (\<forall>advance. (case RecordVotingPowerTable s of
                        Inl e \<Rightarrow> Inl e
                      | Inr s' \<Rightarrow> RecordVotingPowerTable (advance s')) =
                     RecordVotingPowerTable (advance s))"
  using assms by (simp add: RecordVotingPowerTable_def)

theorem tip_lookup_failure_witness:
  "CurrentBTCHeight noTipState = None \<and> RecordVotingPowerTable noTipState = Inr noTipState \<and>
   \<not> HasVotingPowerTable noTipState 11"
proof -
  have none: "CurrentBTCHeight noTipState = None"
    by (simp add: noTipState_def)
  have "\<not> HasVotingPowerTable noTipState 11"
    using scenario_no_table_11
    by (simp add: HasVotingPowerTable_def noTipState_def votingPowerStore_def)
  with tip_lookup_failure [OF none] none show ?thesis by simp
qed

text \<open>
  Claim C4. When the registries decode and, for the tip height found, the score of every
  validator that is not slashed is zero, \<open>RecordVotingPowerTable\<close> returns and leaves the
  state as it was: no entry is written, and the height has no table unless it had one.
\<close>

theorem no_candidates_no_table:
  assumes "registry_ok s"
    and "\<forall>t. CurrentBTCHeight s = Some t \<longrightarrow>
           (\<forall>(k, v) \<in> set (btcValidatorStore s).
              \<forall>b. v = Some b \<and> \<not> IsSlashed b \<longrightarrow> totalScore s t k = 0)"
  shows "RecordVotingPowerTable s = Inr s"
proof (cases "CurrentBTCHeight s")
  case None
  then show ?thesis by (simp add: RecordVotingPowerTable_def)
next
  case (Some t)
  have "collectActive s t (btcValidatorStore s) [] = Inr []"
    using assms Some by (intro collectActive_none) (simp_all add: registry_ok_def)
  with Some show ?thesis by (simp add: RecordVotingPowerTable_def)
qed

theorem no_candidates_no_table_witness:
  "registry_ok idleState \<and> totalScore idleState 800000 pkA = 0 \<and>
   totalScore idleState 800000 pkD = 500 \<and>
   RecordVotingPowerTable idleState = Inr idleState"
proof -
  have "totalScore idleState 800000 pkA = 0" "totalScore idleState 800000 pkD = 500"
    by (simp_all add: idleState_def idleDelegators_def totalScore_def delegationScore_def
        pkA_def pkD_def)
  with no_candidates_no_table [OF idle_registry_ok idle_scores] idle_registry_ok
  show ?thesis by simp
qed

text \<open>
  Claim C7. A run of the tally that returns does not write under the key of a validator
  that is slashed in the registry (a registry has one entry a key), whatever its
  delegations score: the store holds for that key at the block height what it held before,
  and when the height had no table before the run, it holds no entry for the key after it
  and \<open>GetVotingPower\<close> returns 0.
\<close>

theorem slashed_not_tallied:
  assumes "distinct (map fst (btcValidatorStore s))"
    and "slashedValidator s valBTCPK"
    and "RecordVotingPowerTable s = Inr s'"
  shows "kv_Get (kvstore s') (VotingPowerKey s @ Uint64ToBigEndian (BlockHeight s) @ valBTCPK) =
         kv_Get (kvstore s) (VotingPowerKey s @ Uint64ToBigEndian (BlockHeight s) @ valBTCPK) \<and>
         (\<not> HasVotingPowerTable s (BlockHeight s) \<longrightarrow>
            kv_Get (kvstore s') (VotingPowerKey s @ Uint64ToBigEndian (BlockHeight s) @ valBTCPK) = None \<and>
            GetVotingPower s' valBTCPK (BlockHeight s) = Inr 0)"
proof -
  let ?K = "votingPowerStore s (BlockHeight s) @ valBTCPK"
  have same: "kv_Get (kvstore s') ?K = kv_Get (kvstore s) ?K \<and> votingPowerStore s' = votingPowerStore s"
    using RecordVotingPowerTable_Inr [OF assms(3)]
  proof
    assume "s' = s"
    then show ?thesis by simp
  next
    assume "\<exists>written. (\<forall>e \<in> set written. activeEntry s e) \<and>
       length written \<le> unat (MaxActiveBtcValidators s) \<and>
       setVotingPowers s (BlockHeight s) written = Inr s'"
    then obtain written where act: "\<forall>e \<in> set written. activeEntry s e"
      and run: "setVotingPowers s (BlockHeight s) written = Inr s'"
      by blast
    from assms(2) obtain v where v: "(valBTCPK, Some v) \<in> set (btcValidatorStore s)" "IsSlashed v"
      by (auto simp: slashedValidator_def)
    have "BtcPk e \<noteq> valBTCPK" if "e \<in> set written" for e
    proof
      assume eq: "BtcPk e = valBTCPK"
      from act that obtain b where "(BtcPk e, Some b) \<in> set (btcValidatorStore s)" "\<not> IsSlashed b"
        by (auto simp: activeEntry_def)
      with v eq assms(1) have "Some b = Some v"
        by (metis eq_key_imp_eq_value)
      with \<open>\<not> IsSlashed b\<close> v(2) show False by simp
    qed
    then have "\<forall>e \<in> set written. votingPowerStore s (BlockHeight s) @ BtcPk e \<noteq> ?K"
      by simp
    then have "kv_Get (kvstore s') ?K = kv_Get (kvstore s) ?K"
      by (rule setVotingPowers_Get_other [OF run])
    moreover have "votingPowerStore s' h = votingPowerStore s h" for h
      by (subst setVotingPowers_fields [OF run]) simp
    ultimately show ?thesis by auto
  qed
  have fresh: "kv_Get (kvstore s') ?K = None \<and> GetVotingPower s' valBTCPK (BlockHeight s) = Inr 0"
    if "\<not> HasVotingPowerTable s (BlockHeight s)"
  proof -
    have "kv_Get (kvstore s') ?K = None"
      using same absent_if_no_table [OF that] by simp
    then show ?thesis
      using same by (simp add: GetVotingPower_def prefix_Get_def)
  qed
  show ?thesis
    using same fresh by (simp add: votingPowerStore_def)
qed

theorem slashed_not_tallied_witness:
  "distinct (map fst (btcValidatorStore scenarioState)) \<and> slashedValidator scenarioState pkD \<and>
   totalScore scenarioState 800000 pkD = 500 \<and>
   RecordVotingPowerTable scenarioState = Inr talliedState \<and>
   \<not> HasVotingPowerTable scenarioState 11 \<and>
   kv_Get (kvstore talliedState) (VotingPowerKey scenarioState @ Uint64ToBigEndian 11 @ pkD) = None \<and>
   GetVotingPower talliedState pkD 11 = Inr 0"
proof -
  have "totalScore scenarioState 800000 pkD = 500"
    by (simp add: scenarioState_def scenarioDelegators_def totalScore_def delegationScore_def
        pkA_def pkB_def pkC_def pkD_def)
  moreover
  from slashed_not_tallied [OF scenario_distinct scenario_slashed scenario_tally]
    scenario_no_table_11
  have "kv_Get (kvstore talliedState)
      (VotingPowerKey scenarioState @ Uint64ToBigEndian 11 @ pkD) = None"
    and "GetVotingPower talliedState pkD 11 = Inr 0"
    unfolding scenario_height by blast+
  ultimately show ?thesis
    using scenario_distinct scenario_slashed scenario_tally scenario_no_table_11 by blast
qed

text \<open>
  Claim C9. A run of the tally that returns changes nothing under a height other than the
  block height: the entries under that height, \<open>HasVotingPowerTable\<close>, \<open>GetVotingPowerTable\<close>
  and \<open>GetVotingPower\<close> for it are the same after the run as before.
\<close>

theorem tally_frame:
  assumes "RecordVotingPowerTable s = Inr s'" and "H' \<noteq> BlockHeight s"
  shows "prefix_Iterator (votingPowerStore s' H') (kvstore s') =
           prefix_Iterator (votingPowerStore s H') (kvstore s) \<and>
         (HasVotingPowerTable s' H' \<longleftrightarrow> HasVotingPowerTable s H') \<and>
         GetVotingPowerTable s' H' = GetVotingPowerTable s H' \<and>
         (\<forall>valBTCPK. GetVotingPower s' valBTCPK H' = GetVotingPower s valBTCPK H')"
  using RecordVotingPowerTable_Inr [OF assms(1)]
proof
  assume "s' = s"
  then show ?thesis by simp
next
  assume "\<exists>written. (\<forall>e \<in> set written. activeEntry s e) \<and>
     length written \<le> unat (MaxActiveBtcValidators s) \<and>
     setVotingPowers s (BlockHeight s) written = Inr s'"
  then obtain written where run: "setVotingPowers s (BlockHeight s) written = Inr s'"
    by blast
  define kv' where "kv' = kvstore s'"
  have s': "s' = s\<lparr>kvstore := kv'\<rparr>"
    unfolding kv'_def by (rule setVotingPowers_fields [OF run])
  have it: "prefix_Iterator (votingPowerStore s H') kv' =
      prefix_Iterator (votingPowerStore s H') (kvstore s)"
    unfolding kv'_def by (rule setVotingPowers_other_height [OF run assms(2)])
  have "votingPowerStore s (BlockHeight s) @ BtcPk e \<noteq> votingPowerStore s H' @ pk" for e pk
    using assms(2)
    by (auto simp: votingPowerStore_def length_Uint64ToBigEndian Uint64ToBigEndian_inj)
  then have get: "kv_Get kv' (votingPowerStore s H' @ pk) =
      kv_Get (kvstore s) (votingPowerStore s H' @ pk)" for pk
    unfolding kv'_def by (intro setVotingPowers_Get_other [OF run]) blast
  show ?thesis
    by (simp add: s' it get HasVotingPowerTable_def GetVotingPowerTable_def GetVotingPower_def
        prefix_Get_def Let_def)
qed

theorem tally_frame_witness:
  "RecordVotingPowerTable scenarioState = Inr talliedState \<and> 10 \<noteq> BlockHeight scenarioState \<and>
   prefix_Iterator (votingPowerStore talliedState 10) (kvstore talliedState) =
     prefix_Iterator (votingPowerStore scenarioState 10) (kvstore scenarioState) \<and>
   HasVotingPowerTable talliedState 10 \<and> HasVotingPowerTable scenarioState 10 \<and>
   GetVotingPowerTable talliedState 10 = GetVotingPowerTable scenarioState 10 \<and>
   GetVotingPower talliedState pkA 10 = GetVotingPower scenarioState pkA 10"
proof -
  have ne: "10 \<noteq> BlockHeight scenarioState"
    by (simp add: scenario_height)
  have "HasVotingPowerTable scenarioState 10"
    by (simp add: HasVotingPowerTable_def scenarioState_def prefix_Iterator_def
        votingPowerStore_def length_Uint64ToBigEndian)
  with tally_frame [OF scenario_tally ne] scenario_tally ne show ?thesis by simp
qed

text \<open>
  Claim C3. The tally runs once a height, on a height that has no table yet. If the tables
  are well formed before such a run, they are after it: under every height that has a
  table, every entry holds a positive power and there are at most
  \<open>MaxActiveBtcValidators\<close> entries. (An empty store is well formed.)
\<close>

theorem tally_keeps_tables_ok:
  assumes "tables_ok s"
    and "\<not> HasVotingPowerTable s (BlockHeight s)"
    and "RecordVotingPowerTable s = Inr s'"
  shows "tables_ok s'"
  using RecordVotingPowerTable_Inr [OF assms(3)]
proof
  assume "s' = s"
  with assms(1) show ?thesis by simp
next
  assume "\<exists>written. (\<forall>e \<in> set written. activeEntry s e) \<and>
     length written \<le> unat (MaxActiveBtcValidators s) \<and>
     setVotingPowers s (BlockHeight s) written = Inr s'"
  then obtain written where act: "\<forall>e \<in> set written. activeEntry s e"
    and len: "length written \<le> unat (MaxActiveBtcValidators s)"
    and run: "setVotingPowers s (BlockHeight s) written = Inr s'"
    by blast
  define kv' where "kv' = kvstore s'"
  have s': "s' = s\<lparr>kvstore := kv'\<rparr>"
    unfolding kv'_def by (rule setVotingPowers_fields [OF run])
  have empty: "prefix_Iterator (votingPowerStore s (BlockHeight s)) (kvstore s) = []"
    using assms(2) by (simp add: HasVotingPowerTable_def)
  have "(\<forall>(pk, v) \<in> set (prefix_Iterator (votingPowerStore s H) kv').
            \<exists>p. v = Uint64ToBigEndian p \<and> 0 < p) \<and>
        length (prefix_Iterator (votingPowerStore s H) kv') \<le> unat (MaxActiveBtcValidators s)"
    for H
  proof (cases "H = BlockHeight s")
    case True
    have "set (prefix_Iterator (votingPowerStore s H) kv') \<subseteq>
        (\<lambda>e. (BtcPk e, Uint64ToBigEndian (VotingPower e))) ` set written"
      using setVotingPowers_entries(1) [OF run] empty by (simp add: True kv'_def)
    moreover have "length (prefix_Iterator (votingPowerStore s H) kv') \<le> length written"
      using setVotingPowers_entries(2) [OF run] empty by (simp add: True kv'_def)
    ultimately show ?thesis
      using act len by (fastforce simp: activeEntry_def)
  next
    case False
    have "prefix_Iterator (votingPowerStore s H) kv' =
        prefix_Iterator (votingPowerStore s H) (kvstore s)"
      unfolding kv'_def by (rule setVotingPowers_other_height [OF run False])
    with assms(1) show ?thesis by (simp add: tables_ok_def)
  qed
  then show ?thesis
    by (subst s') (simp add: tables_ok_def)
qed

theorem tally_keeps_tables_ok_witness:
  "tables_ok scenarioState \<and> \<not> HasVotingPowerTable scenarioState (BlockHeight scenarioState) \<and>
   RecordVotingPowerTable scenarioState = Inr talliedState \<and> tables_ok talliedState \<and>
   HasVotingPowerTable talliedState (BlockHeight scenarioState)"
proof -
  have fresh: "\<not> HasVotingPowerTable scenarioState (BlockHeight scenarioState)"
    using scenario_no_table_11 by (simp add: scenario_height)
  from tally_keeps_tables_ok [OF scenario_tables_ok fresh scenario_tally]
    scenario_tables_ok fresh scenario_tally tallied_has_11
  show ?thesis by (simp add: scenario_height)
qed

section \<open>Hexadecimal keys\<close>

lemma hextable_inj: "i < 16 \<Longrightarrow> j < 16 \<Longrightarrow> hextable ! i = hextable ! j \<Longrightarrow> i = j"
proof -
  have "distinct hextable" by (simp add: hextable_def)
  moreover have "length hextable = 16" by (simp add: hextable_def)
  ultimately show "i < 16 \<Longrightarrow> j < 16 \<Longrightarrow> hextable ! i = hextable ! j \<Longrightarrow> i = j"
    by (simp add: nth_eq_iff_index_eq)
qed

lemma nibble_bounds:
  fixes v :: byte
  shows "unat (drop_bit 4 v) < 16" and "unat (v AND 0x0f) < 16"
proof -
  have "unat (drop_bit 4 v) = unat v div 16"
    unfolding unat_drop_bit_eq by (simp add: drop_bit_eq_div)
  moreover have "unat v < 256" using unsigned_less [of v, where ?'a = nat] by simp
  ultimately show "unat (drop_bit 4 v) < 16" by simp
  have "v AND 0x0f \<le> 0x0f" by (rule word_and_le1)
  then show "unat (v AND 0x0f) < 16" by (simp add: word_le_nat_alt)
qed

lemma byte_nibbles:
  fixes v w :: byte
  assumes "drop_bit 4 v = drop_bit 4 w" and "v AND 0x0f = w AND 0x0f"
  shows "v = w"
proof -
  have mask: "(0x0f :: byte) = mask 4" by (simp add: mask_eq_exp_minus_1)
  have "take_bit 4 v = take_bit 4 w"
    using assms(2) unfolding mask by (simp only: take_bit_eq_mask)
  then have "push_bit 4 (drop_bit 4 v) + take_bit 4 v = push_bit 4 (drop_bit 4 w) + take_bit 4 w"
    using assms(1) by (simp only:)
  then show ?thesis by (simp only: bits_ident)
qed

lemma hexByte_inj: "hexByte v = hexByte w \<Longrightarrow> v = w"
proof -
  assume "hexByte v = hexByte w"
  then have hi: "hextable ! unat (drop_bit 4 v) = hextable ! unat (drop_bit 4 w)"
    and lo: "hextable ! unat (v AND 0x0f) = hextable ! unat (w AND 0x0f)"
    by (simp_all add: hexByte_def)
  from hi have "unat (drop_bit 4 v) = unat (drop_bit 4 w)"
    by (rule hextable_inj [OF nibble_bounds(1) nibble_bounds(1)])
  then have 1: "drop_bit 4 v = drop_bit 4 w"
    by (simp only: word_unat_eq_iff)
  from lo have "unat (v AND 0x0f) = unat (w AND 0x0f)"
    by (rule hextable_inj [OF nibble_bounds(2) nibble_bounds(2)])
  then have 2: "v AND 0x0f = w AND 0x0f"
    by (simp only: word_unat_eq_iff)
  from 1 2 show "v = w" by (rule byte_nibbles)
qed

lemma length_hexByte: "length (hexByte x) = 2"
  by (simp add: hexByte_def)

lemma hexByte_not_Nil: "hexByte x \<noteq> []"
  by (simp add: hexByte_def)

lemma MarshalHex_Nil: "MarshalHex [] = []"
  by (simp add: MarshalHex_def EncodeToString_def)

lemma MarshalHex_Cons: "MarshalHex (x # a) = hexByte x @ MarshalHex a"
  by (simp add: MarshalHex_def EncodeToString_def)

lemma MarshalHex_inj: "MarshalHex a = MarshalHex b \<Longrightarrow> a = b"
proof (induction a arbitrary: b)
  case Nil
  then show ?case
    by (cases b) (simp_all add: MarshalHex_Nil MarshalHex_Cons hexByte_not_Nil)
next
  case (Cons x a)
  show ?case
  proof (cases b)
    case Nil
    with Cons.prems show ?thesis
      by (simp add: MarshalHex_Nil MarshalHex_Cons hexByte_not_Nil)
  next
    case (Cons y b')
    with Cons.prems have "hexByte x @ MarshalHex a = hexByte y @ MarshalHex b'"
      by (simp add: MarshalHex_Cons)
    moreover have "length (hexByte x) = length (hexByte y)"
      by (simp add: length_hexByte)
    ultimately have "hexByte x = hexByte y" "MarshalHex a = MarshalHex b'"
      by simp_all
    with Cons.IH [of b'] hexByte_inj [of x y] Cons show ?thesis by simp
  qed
qed

section \<open>Reading a table\<close>

lemma valSetLoop_dom:
  "valSetLoop s iter valSet = Inr m \<Longrightarrow> dom valSet \<union> MarshalHex ` fst ` set iter \<subseteq> dom m"
proof (induction iter arbitrary: valSet)
  case Nil
  then show ?case by simp
next
  case (Cons x iter)
  obtain k v where x: "x = (k, v)" by (cases x)
  from Cons.prems obtain p where len: "length k = BIP340PubKeyLen s"
    and run: "valSetLoop s iter (valSet(MarshalHex k \<mapsto> p)) = Inr m"
    by (auto simp: x NewBIP340PubKey_def split: if_splits sum.splits)
  from Cons.IH [OF run]
  have "insert (MarshalHex k) (dom valSet) \<union> MarshalHex ` fst ` set iter \<subseteq> dom m"
    by (simp only: dom_fun_upd option.simps if_False)
  then show ?case by (auto simp: x)
qed

lemma valSetLoop_decodes:
  assumes "\<forall>(k, v) \<in> set iter. length k = BIP340PubKeyLen s \<and> length v = 8"
    and "distinct (map fst iter)"
  shows "\<exists>m. valSetLoop s iter valSet = Inr m \<and>
           (\<forall>(k, v) \<in> set iter. m (MarshalHex k) = Some (Uint64 v)) \<and>
           (\<forall>str. str \<notin> MarshalHex ` fst ` set iter \<longrightarrow> m str = valSet str)"
  using assms
proof (induction iter arbitrary: valSet)
  case Nil
  then show ?case by simp
next
  case (Cons x iter)
  obtain k v where x: "x = (k, v)" by (cases x)
  from Cons.prems have len: "length k = BIP340PubKeyLen s" "length v = 8"
    and rest: "\<forall>(k, v) \<in> set iter. length k = BIP340PubKeyLen s \<and> length v = 8"
    and dist: "distinct (map fst iter)" and fresh: "k \<notin> fst ` set iter"
    by (auto simp: x)
  let ?valSet = "valSet(MarshalHex k \<mapsto> Uint64 v)"
  from Cons.IH [OF rest dist, of ?valSet] obtain m
    where run: "valSetLoop s iter ?valSet = Inr m"
      and mem: "\<forall>(k, v) \<in> set iter. m (MarshalHex k) = Some (Uint64 v)"
      and other: "\<forall>str. str \<notin> MarshalHex ` fst ` set iter \<longrightarrow> m str = ?valSet str"
    by blast
  have step: "valSetLoop s (x # iter) valSet = Inr m"
    using run len by (simp add: x NewBIP340PubKey_def BigEndianToUint64_def)
  have "MarshalHex k \<notin> MarshalHex ` fst ` set iter"
    using fresh by (auto dest: MarshalHex_inj)
  with other have "m (MarshalHex k) = Some (Uint64 v)" by simp
  moreover have "m str = valSet str" if "str \<notin> MarshalHex ` fst ` set (x # iter)" for str
    using that other by (auto simp: x)
  ultimately show ?case
    using step mem by (auto simp: x)
qed

lemma tallied_no_table_12: "\<not> HasVotingPowerTable talliedState 12"
  by (simp add: HasVotingPowerTable_iff tallied_iterator Uint64ToBigEndian_inj
      length_Uint64ToBigEndian)

lemma tallied_decodes_11: "table_decodes talliedState 11"
  by (simp add: table_decodes_def prefix_Iterator_def votingPowerStore_def talliedState_def
      scenarioState_def length_Uint64ToBigEndian pkA_def pkB_def pkD_def)

lemma tallied_entries_11:
  "kv_Get (kvstore talliedState)
     (VotingPowerKey talliedState @ Uint64ToBigEndian 11 @ pkA) = Some (Uint64ToBigEndian 100)"
  "kv_Get (kvstore talliedState)
     (VotingPowerKey talliedState @ Uint64ToBigEndian 11 @ pkB) = Some (Uint64ToBigEndian 80)"
  "kv_Get (kvstore talliedState)
     (VotingPowerKey talliedState @ Uint64ToBigEndian 11 @ pkD) = None"
  by (simp_all add: kv_Get_def talliedState_def scenarioState_def Uint64ToBigEndian_inj
      pkA_def pkB_def pkD_def)


text \<open>
  Claim C6. \<open>GetVotingPowerTable\<close> returns \<open>nil\<close> when the height has no entry, and never an
  empty map. When the height has entries, in a store in key order whose entries under the
  height decode, it returns a map that holds, under the hexadecimal form of each validator
  key with an entry, the power stored for it, and nothing else.
\<close>

theorem GetVotingPowerTable_full_or_nil:
  "(\<not> HasVotingPowerTable s height \<longrightarrow> GetVotingPowerTable s height = Inr None) \<and>
   GetVotingPowerTable s height \<noteq> Inr (Some Map.empty) \<and>
   (HasVotingPowerTable s height \<and> store_ok (kvstore s) \<and> table_decodes s height \<longrightarrow>
      (\<exists>valSet. GetVotingPowerTable s height = Inr (Some valSet) \<and>
         (\<forall>pk. valSet (MarshalHex pk) =
            map_option Uint64
              (kv_Get (kvstore s) (VotingPowerKey s @ Uint64ToBigEndian height @ pk))) \<and>
         dom valSet =
           MarshalHex ` {pk. kv_Get (kvstore s)
                               (VotingPowerKey s @ Uint64ToBigEndian height @ pk) \<noteq> None}))"
proof -
  let ?it = "prefix_Iterator (votingPowerStore s height) (kvstore s)"
  have nil: "GetVotingPowerTable s height = Inr None" if "\<not> HasVotingPowerTable s height"
    using that by (simp add: GetVotingPowerTable_def HasVotingPowerTable_def)
  have nonempty: "GetVotingPowerTable s height \<noteq> Inr (Some Map.empty)"
  proof
    assume eq: "GetVotingPowerTable s height = Inr (Some Map.empty)"
    then have it: "?it \<noteq> []" and run: "valSetLoop s ?it Map.empty = Inr Map.empty"
      by (auto simp: GetVotingPowerTable_def Let_def split: if_splits sum.splits)
    from valSetLoop_dom [OF run] have "MarshalHex ` fst ` set ?it \<subseteq> {}" by simp
    with it show False by (cases ?it) auto
  qed
  have full: "\<exists>valSet. GetVotingPowerTable s height = Inr (Some valSet) \<and>
         (\<forall>pk. valSet (MarshalHex pk) =
            map_option Uint64
              (kv_Get (kvstore s) (VotingPowerKey s @ Uint64ToBigEndian height @ pk))) \<and>
         dom valSet =
           MarshalHex ` {pk. kv_Get (kvstore s)
                               (VotingPowerKey s @ Uint64ToBigEndian height @ pk) \<noteq> None}"
    if has: "HasVotingPowerTable s height" and ok: "store_ok (kvstore s)"
      and dec: "table_decodes s height"
  proof -
    have key: "VotingPowerKey s @ Uint64ToBigEndian height @ pk = votingPowerStore s height @ pk"
      for pk by (simp add: votingPowerStore_def)
    have dist: "distinct (map fst ?it)"
      using sorted_prefix_Iterator [OF ok, of "votingPowerStore s height"]
      by (simp add: strict_sorted_iff)
    from dec have wf: "\<forall>(k, v) \<in> set ?it. length k = BIP340PubKeyLen s \<and> length v = 8"
      by (simp add: table_decodes_def)
    from valSetLoop_decodes [OF wf dist, of Map.empty] obtain m
      where run: "valSetLoop s ?it Map.empty = Inr m"
        and mem: "\<forall>(k, v) \<in> set ?it. m (MarshalHex k) = Some (Uint64 v)"
        and other: "\<forall>str. str \<notin> MarshalHex ` fst ` set ?it \<longrightarrow> m str = None"
      by auto
    have get: "GetVotingPowerTable s height = Inr (Some m)"
      using has run by (simp add: GetVotingPowerTable_def HasVotingPowerTable_def)
    have stored: "kv_Get (kvstore s) (votingPowerStore s height @ pk) = Some v \<longleftrightarrow> (pk, v) \<in> set ?it"
      for pk v
      by (simp add: kv_Get_Some_iff [OF ok] prefix_Iterator_mem)
    have val: "m (MarshalHex pk) =
        map_option Uint64 (kv_Get (kvstore s) (votingPowerStore s height @ pk))" for pk
    proof (cases "kv_Get (kvstore s) (votingPowerStore s height @ pk)")
      case None
      then have "pk \<notin> fst ` set ?it"
        using stored [of pk] by force
      then have "MarshalHex pk \<notin> MarshalHex ` fst ` set ?it"
        by (auto dest: MarshalHex_inj)
      with other None show ?thesis by simp
    next
      case (Some v)
      then have "(pk, v) \<in> set ?it" by (simp add: stored)
      with mem Some show ?thesis by auto
    qed
    have "dom m = MarshalHex ` {pk. kv_Get (kvstore s) (votingPowerStore s height @ pk) \<noteq> None}"
    proof (intro set_eqI iffI)
      fix str assume "str \<in> dom m"
      then have "str \<in> MarshalHex ` fst ` set ?it"
        using other by (cases "str \<in> MarshalHex ` fst ` set ?it") auto
      then obtain pk v where "(pk, v) \<in> set ?it" "str = MarshalHex pk" by auto
      then show "str \<in> MarshalHex ` {pk. kv_Get (kvstore s) (votingPowerStore s height @ pk) \<noteq> None}"
        using stored [of pk v] by auto
    next
      fix str
      assume "str \<in> MarshalHex ` {pk. kv_Get (kvstore s) (votingPowerStore s height @ pk) \<noteq> None}"
      then obtain pk where "str = MarshalHex pk"
        "kv_Get (kvstore s) (votingPowerStore s height @ pk) \<noteq> None"
        by auto
      then show "str \<in> dom m" using val [of pk] by auto
    qed
    with get val show ?thesis by (simp add: key)
  qed
  show ?thesis using nil nonempty full by blast
qed

theorem GetVotingPowerTable_full_or_nil_witness:
  "\<not> HasVotingPowerTable talliedState 12 \<and> GetVotingPowerTable talliedState 12 = Inr None \<and>
   HasVotingPowerTable talliedState 11 \<and> store_ok (kvstore talliedState) \<and>
   table_decodes talliedState 11 \<and>
   (\<exists>valSet. GetVotingPowerTable talliedState 11 = Inr (Some valSet) \<and>
      valSet (MarshalHex pkA) = Some 100 \<and> valSet (MarshalHex pkB) = Some 80 \<and>
      valSet (MarshalHex pkD) = None)"
proof -
  have nil: "GetVotingPowerTable talliedState 12 = Inr None"
    using GetVotingPowerTable_full_or_nil [of talliedState 12] tallied_no_table_12 by blast
  from GetVotingPowerTable_full_or_nil [of talliedState 11]
    tallied_has_11 tallied_store_ok tallied_decodes_11
  obtain valSet where get: "GetVotingPowerTable talliedState 11 = Inr (Some valSet)"
    and val: "\<And>pk. valSet (MarshalHex pk) =
        map_option Uint64
          (kv_Get (kvstore talliedState) (VotingPowerKey talliedState @ Uint64ToBigEndian 11 @ pk))"
    by blast
  have "valSet (MarshalHex pkA) = Some 100" "valSet (MarshalHex pkB) = Some 80"
    "valSet (MarshalHex pkD) = None"
    by (simp_all add: val tallied_entries_11 Uint64_Uint64ToBigEndian)
  with get nil tallied_no_table_12 tallied_has_11 tallied_store_ok tallied_decodes_11
  show ?thesis by blast
qed

section \<open>The tally returns and keeps the store well formed\<close>

lemma setVotingPowers_returns:
  "\<forall>e \<in> set es. BtcPk e \<noteq> [] \<Longrightarrow> \<exists>s'. setVotingPowers s h es = Inr s'"
  by (induction es arbitrary: s) (simp_all add: SetVotingPower_def prefix_Set_def)

lemma RecordVotingPowerTable_returns:
  assumes "registry_ok s" and "0 < BIP340PubKeyLen s"
  shows "\<exists>s'. RecordVotingPowerTable s = Inr s'"
proof (cases "CurrentBTCHeight s")
  case None
  then show ?thesis by (simp add: RecordVotingPowerTable_def)
next
  case (Some t)
  from assms(1) obtain active where active: "collectActive s t (btcValidatorStore s) [] = Inr active"
    using collectActive_returns [of "btcValidatorStore s" s t "[]"]
    by (auto simp: registry_ok_def)
  let ?written = "FilterTopNBTCValidators active (MaxActiveBtcValidators s)"
  have "\<forall>e \<in> set active. activeEntry s e"
    using collectActive_activeEntry [OF active] by simp
  then have "\<forall>e \<in> set ?written. BtcPk e \<noteq> []"
    using set_FilterTopNBTCValidators [of active "MaxActiveBtcValidators s"] assms(2)
    by (fastforce simp: activeEntry_def)
  from setVotingPowers_returns [OF this] Some active show ?thesis
    by (simp add: RecordVotingPowerTable_def)
qed

lemma setVotingPowers_store_ok:
  "setVotingPowers s h es = Inr s' \<Longrightarrow> store_ok (kvstore s) \<Longrightarrow> store_ok (kvstore s')"
proof (induction es arbitrary: s)
  case Nil
  then show ?case by simp
next
  case (Cons e es)
  then obtain s1 where s1: "SetVotingPower s (BtcPk e) h (VotingPower e) = Inr s1"
    and rest: "setVotingPowers s1 h es = Inr s'"
    by (auto split: sum.splits)
  have "store_ok (kvstore s1)"
    using Cons.prems(2) by (subst SetVotingPower_Inr(1) [OF s1]) (simp add: store_ok_kv_Set)
  from Cons.IH [OF rest this] show ?case .
qed

lemma setVotingPowers_keys_ok:
  "setVotingPowers s h es = Inr s' \<Longrightarrow> votingPowerKeys_ok s \<Longrightarrow> votingPowerKeys_ok s'"
proof (induction es arbitrary: s)
  case Nil
  then show ?case by simp
next
  case (Cons e es)
  then obtain s1 where s1: "SetVotingPower s (BtcPk e) h (VotingPower e) = Inr s1"
    and rest: "setVotingPowers s1 h es = Inr s'"
    by (auto split: sum.splits)
  note upd = SetVotingPower_Inr(1) [OF s1]
  have "set (prefix_Iterator (VotingPowerKey s)
          (kv_Set (kvstore s) (VotingPowerKey s @ Uint64ToBigEndian h @ BtcPk e)
             (Uint64ToBigEndian (VotingPower e)))) \<subseteq>
        insert (Uint64ToBigEndian h @ BtcPk e, Uint64ToBigEndian (VotingPower e))
          (set (prefix_Iterator (VotingPowerKey s) (kvstore s)))"
    by (rule set_prefix_Iterator_kv_Set)
  with Cons.prems(2) have "votingPowerKeys_ok s1"
    by (subst upd) (auto simp: votingPowerKeys_ok_def votingPowerStore_def length_Uint64ToBigEndian)
  from Cons.IH [OF rest this] show ?case .
qed

lemma RecordVotingPowerTable_keeps_store:
  assumes "RecordVotingPowerTable s = Inr s'"
  shows "store_ok (kvstore s) \<Longrightarrow> store_ok (kvstore s')"
    and "votingPowerKeys_ok s \<Longrightarrow> votingPowerKeys_ok s'"
  using RecordVotingPowerTable_Inr [OF assms] setVotingPowers_store_ok setVotingPowers_keys_ok
  by blast+

text \<open>
  The empty store is well formed, and a run of the tally on a height without a table leaves
  a table that decodes: the hypotheses of the claims about reading hold along the life of
  the store.
\<close>

lemma empty_store_ok:
  assumes "kvstore s = []"
  shows "store_ok (kvstore s)" and "votingPowerKeys_ok s" and "tables_ok s"
  using assms
  by (simp_all add: store_ok_def votingPowerKeys_ok_def tables_ok_def prefix_Iterator_def)

lemma tally_table_decodes:
  assumes "\<not> HasVotingPowerTable s (BlockHeight s)" and "RecordVotingPowerTable s = Inr s'"
  shows "table_decodes s' (BlockHeight s)"
  using RecordVotingPowerTable_Inr [OF assms(2)]
proof
  assume "s' = s"
  with assms(1) show ?thesis
    by (simp add: table_decodes_def HasVotingPowerTable_def)
next
  assume "\<exists>written. (\<forall>e \<in> set written. activeEntry s e) \<and>
     length written \<le> unat (MaxActiveBtcValidators s) \<and>
     setVotingPowers s (BlockHeight s) written = Inr s'"
  then obtain written where act: "\<forall>e \<in> set written. activeEntry s e"
    and run: "setVotingPowers s (BlockHeight s) written = Inr s'"
    by blast
  define kv' where "kv' = kvstore s'"
  have s': "s' = s\<lparr>kvstore := kv'\<rparr>"
    unfolding kv'_def by (rule setVotingPowers_fields [OF run])
  have "prefix_Iterator (votingPowerStore s (BlockHeight s)) (kvstore s) = []"
    using assms(1) by (simp add: HasVotingPowerTable_def)
  with setVotingPowers_entries(1) [OF run]
  have "set (prefix_Iterator (votingPowerStore s (BlockHeight s)) kv') \<subseteq>
      (\<lambda>e. (BtcPk e, Uint64ToBigEndian (VotingPower e))) ` set written"
    by (simp add: kv'_def)
  with act have "\<forall>(k, v) \<in> set (prefix_Iterator (votingPowerStore s (BlockHeight s)) kv').
      length k = BIP340PubKeyLen s \<and> length v = 8"
    by (fastforce simp: activeEntry_def length_Uint64ToBigEndian)
  then show ?thesis
    by (subst s') (simp add: table_decodes_def)
qed

end
